theory Spec2Isabelle
  imports Complex_Main
begin

section \<open>Characters and strings\<close>

text \<open>
  A Python \<open>str\<close> is modelled as a \<open>string\<close>, one \<open>char\<close> per code point: the
  texts of the model are the texts over the code points 0 to 255 (ASCII and Latin-1). On
  these code points the classification of characters is the one of Python 3 and its
  Unicode database: \<open>str.lower\<close>, \<open>str.isdigit\<close>, the whitespace of \<open>str.split\<close>, and
  the classes \<open>\w\<close> (with \<open>\b\<close>) and \<open>\d\<close> of \<open>re\<close> on \<open>str\<close> patterns. A Python
  \<open>float\<close> is modelled as a \<open>real\<close>: the scores of the program are quotients of small
  naturals, on which the comparisons of the program agree with the exact ones.
\<close>

definition is_ascii_upper :: "char \<Rightarrow> bool" where
  "is_ascii_upper c = (65 \<le> (of_char c :: nat) \<and> (of_char c :: nat) \<le> 90)"

definition is_ascii_lower :: "char \<Rightarrow> bool" where
  "is_ascii_lower c = (97 \<le> (of_char c :: nat) \<and> (of_char c :: nat) \<le> 122)"

text \<open>The class \<open>\d\<close>: the decimal digits, of which Latin-1 has \<open>0\<close> to \<open>9\<close> only.\<close>

definition is_ascii_digit :: "char \<Rightarrow> bool" where
  "is_ascii_digit c = (48 \<le> (of_char c :: nat) \<and> (of_char c :: nat) \<le> 57)"

text \<open>
  The letters of Latin-1 beyond ASCII: the capitals \<open>0xC0\<close> to \<open>0xDE\<close> without the
  multiplication sign \<open>0xD7\<close>; the small letters \<open>0xDF\<close> to \<open>0xFF\<close> without the division
  sign \<open>0xF7\<close>, and the micro sign \<open>0xB5\<close>; the ordinal indicators \<open>0xAA\<close> and \<open>0xBA\<close>.
\<close>

definition is_latin1_upper :: "char \<Rightarrow> bool" where
  "is_latin1_upper c =
     ((192 \<le> (of_char c :: nat) \<and> (of_char c :: nat) \<le> 214)
      \<or> (216 \<le> (of_char c :: nat) \<and> (of_char c :: nat) \<le> 222))"

definition is_latin1_lower :: "char \<Rightarrow> bool" where
  "is_latin1_lower c =
     ((223 \<le> (of_char c :: nat) \<and> (of_char c :: nat) \<le> 246)
      \<or> (248 \<le> (of_char c :: nat) \<and> (of_char c :: nat) \<le> 255)
      \<or> (of_char c :: nat) = 181)"

definition is_latin1_ordinal :: "char \<Rightarrow> bool" where
  "is_latin1_ordinal c = ((of_char c :: nat) = 170 \<or> (of_char c :: nat) = 186)"

text \<open>\<open>str.isalpha()\<close> of one character.\<close>

definition is_alpha_char :: "char \<Rightarrow> bool" where
  "is_alpha_char c =
     (is_ascii_upper c \<or> is_ascii_lower c \<or> is_latin1_upper c \<or> is_latin1_lower c
      \<or> is_latin1_ordinal c)"

text \<open>
  \<open>str.isdigit()\<close> of one character: the decimal digits and the superscripts \<open>0xB2\<close>,
  \<open>0xB3\<close> and \<open>0xB9\<close>. \<open>str.isnumeric()\<close> adds the fractions \<open>0xBC\<close> to \<open>0xBE\<close>.
\<close>

definition is_digit_char :: "char \<Rightarrow> bool" where
  "is_digit_char c =
     (is_ascii_digit c \<or> (of_char c :: nat) = 178 \<or> (of_char c :: nat) = 179
      \<or> (of_char c :: nat) = 185)"

definition is_numeric_char :: "char \<Rightarrow> bool" where
  "is_numeric_char c =
     (is_digit_char c \<or> (188 \<le> (of_char c :: nat) \<and> (of_char c :: nat) \<le> 190))"

text \<open>
  The class \<open>\w\<close> of a regular expression on a \<open>str\<close>: the alphanumeric characters
  (alphabetic, decimal, digit or numeric) and the underscore.
\<close>

definition is_word_char :: "char \<Rightarrow> bool" where
  "is_word_char c = (is_alpha_char c \<or> is_numeric_char c \<or> c = CHR ''_'')"

text \<open>The lower case of a capital letter is 32 code points above it.\<close>

definition lower_char :: "char \<Rightarrow> char" where
  "lower_char c =
     (if is_ascii_upper c \<or> is_latin1_upper c then char_of (of_char c + (32::nat)) else c)"

text \<open>\<open>str.lower()\<close>.\<close>

definition lower :: "string \<Rightarrow> string" where
  "lower s = map lower_char s"

text \<open>\<open>sep.join(xs)\<close>.\<close>

fun join :: "string \<Rightarrow> string list \<Rightarrow> string" where
  "join sep [] = []"
| "join sep [t] = t"
| "join sep (t # ts) = t @ sep @ join sep ts"

section \<open>EditDistance\<close>

text \<open>
  \<open>EditDistance.calculate\<close>: the rolling-row Levenshtein distance. \<open>inner_loop\<close> is the
  loop over \<open>enumerate(s2)\<close> that appends to \<open>current_row\<close>, \<open>outer_loop\<close> the loop over
  \<open>enumerate(s1)\<close> that replaces \<open>previous_row\<close>. The rows are read at indices that
  exist (lemmas \<open>inner_loop_row\<close> and \<open>outer_loop_row\<close> give every row in full), so no
  \<open>IndexError\<close> branch is needed.
\<close>

fun inner_loop :: "char \<Rightarrow> nat list \<Rightarrow> nat list \<Rightarrow> (nat \<times> char) list \<Rightarrow> nat list" where
  "inner_loop c1 previous_row current_row [] = current_row"
| "inner_loop c1 previous_row current_row ((j, c2) # rest) =
     (let insertions = previous_row ! (j + 1) + 1;
          deletions = current_row ! j + 1;
          substitutions = previous_row ! j + (if c1 \<noteq> c2 then 1 else 0)
      in inner_loop c1 previous_row
           (current_row @ [min insertions (min deletions substitutions)]) rest)"

fun outer_loop :: "string \<Rightarrow> nat list \<Rightarrow> (nat \<times> char) list \<Rightarrow> nat list" where
  "outer_loop s2 previous_row [] = previous_row"
| "outer_loop s2 previous_row ((i, c1) # rest) =
     outer_loop s2 (inner_loop c1 previous_row [i + 1] (enumerate 0 s2)) rest"

function calculate :: "string \<Rightarrow> string \<Rightarrow> nat" where
  "calculate s1 s2 =
     (if length s1 < length s2 then calculate s2 s1
      else if length s2 = 0 then length s1
      else last (outer_loop s2 [0..<length s2 + 1] (enumerate 0 s1)))"
  by pat_completeness auto
termination
  by (relation "measure (\<lambda>(s1, s2). if length s1 < length s2 then 1 else 0)") auto

declare calculate.simps [simp del]

definition similarity :: "string \<Rightarrow> string \<Rightarrow> real" where
  "similarity s1 s2 =
     (if s1 = [] \<and> s2 = [] then 1
      else let max_len = max (length s1) (length s2)
           in if max_len = 0 then 1
              else let distance = calculate s1 s2
                   in 1 - real distance / real max_len)"

text \<open>
  The textbook recursion of the edit distance (insertion, deletion and substitution cost
  1 each), the reference the rolling rows are compared with.
\<close>

fun lev :: "'a list \<Rightarrow> 'a list \<Rightarrow> nat" where
  "lev [] ys = length ys"
| "lev xs [] = length xs"
| "lev (x # xs) (y # ys) =
     min (lev xs (y # ys) + 1)
       (min (lev (x # xs) ys + 1) (lev xs ys + (if x \<noteq> y then 1 else 0)))"

text \<open>The distance between the prefixes of length \<open>i\<close> and \<open>j\<close>: entry \<open>j\<close> of row \<open>i\<close>.\<close>

definition dist_pref :: "'a list \<Rightarrow> 'a list \<Rightarrow> nat \<Rightarrow> nat \<Rightarrow> nat" where
  "dist_pref s1 s2 i j = lev (rev (take i s1)) (rev (take j s2))"

section \<open>Tokenizer\<close>

text \<open>
  The pattern of the tokenizer is \<^verbatim>\<open>\b[\w@#$+!']+\b\<close>. \<open>token_char\<close> is its character
  class. \<open>at_boundary prev rest\<close> is \<^verbatim>\<open>\b\<close> at a position, given the character before it (if
  any) and the text from it on: exactly one of the two neighbours is a word character.
\<close>

definition token_char :: "char \<Rightarrow> bool" where
  "token_char c = (is_word_char c \<or> c \<in> set ''@#$+!'' \<or> c = CHR 0x27)"

definition is_w :: "char option \<Rightarrow> bool" where
  "is_w p = (case p of None \<Rightarrow> False | Some c \<Rightarrow> is_word_char c)"

definition next_char :: "string \<Rightarrow> char option" where
  "next_char s = (case s of [] \<Rightarrow> None | c # _ \<Rightarrow> Some c)"

definition at_boundary :: "char option \<Rightarrow> string \<Rightarrow> bool" where
  "at_boundary prev rest = (is_w prev \<noteq> is_w (next_char rest))"

text \<open>
  The greedy \<open>+\<close> has consumed a run of class characters (\<open>consumed\<close>, last character
  first); the engine tries the closing \<^verbatim>\<open>\b\<close> and on failure gives one character back.
\<close>

fun backtrack :: "string \<Rightarrow> string \<Rightarrow> string option" where
  "backtrack [] rest = None"
| "backtrack (c # consumed) rest =
     (if at_boundary (Some c) rest then Some (rev (c # consumed))
      else backtrack consumed (c # rest))"

text \<open>One attempt to match the pattern at a position.\<close>

definition match_word_pattern :: "char option \<Rightarrow> string \<Rightarrow> string option" where
  "match_word_pattern prev s =
     (if at_boundary prev s
      then backtrack (rev (takeWhile token_char s)) (dropWhile token_char s)
      else None)"

text \<open>
  \<open>word_pattern.findall\<close>: scan from the left; after a match go on behind it, after a
  failed attempt one character further.
\<close>

function findall_words :: "char option \<Rightarrow> string \<Rightarrow> string list" where
  "findall_words prev [] = []"
| "findall_words prev (c # cs) =
     (case match_word_pattern prev (c # cs) of
        Some tok \<Rightarrow> tok # findall_words (Some (last tok)) (drop (length tok) (c # cs))
      | None \<Rightarrow> findall_words (Some c) cs)"
  by pat_completeness auto
termination
proof (relation "measure (\<lambda>(prev, s). length s)", goal_cases)
  case 1
  then show ?case by simp
next
  case (2 prev c cs)
  then show ?case by simp
next
  case (3 prev c cs tok)
  have ne: "t \<noteq> []" if "backtrack consumed rest = Some t" for consumed rest t
    using that by (induction consumed rest rule: backtrack.induct) (auto split: if_splits)
  from 3 have "tok \<noteq> []"
    by (auto simp: match_word_pattern_def split: if_splits dest: ne)
  then show ?case by (cases tok) simp_all
qed

definition tokenize :: "string \<Rightarrow> string list" where
  "tokenize text = findall_words None (lower text)"

definition detokenize :: "string list \<Rightarrow> string" where
  "detokenize tokens = join '' '' tokens"

text \<open>
  What the proofs about the scan use: the part of a run that is left when the non-word
  characters at its end are given back, the shape of a token, and the invariant of the
  scan (behind a word character the rest of the run holds no word character).
\<close>

definition strip_tail :: "string \<Rightarrow> string" where
  "strip_tail r = rev (dropWhile (\<lambda>c. \<not> is_word_char c) (rev r))"

definition good_token :: "string \<Rightarrow> bool" where
  "good_token t =
     (t \<noteq> [] \<and> is_word_char (hd t) \<and> is_word_char (last t) \<and> list_all token_char t)"

definition scan_inv :: "char option \<Rightarrow> string \<Rightarrow> bool" where
  "scan_inv prev s =
     (if is_w prev then list_all (\<lambda>c. \<not> is_word_char c) (takeWhile token_char s) else True)"

section \<open>Dictionaries and string operations of Python\<close>

text \<open>
  A \<open>dict\<close> is an association list with distinct keys, in insertion order (the order in
  which Python iterates it). \<open>dict_set\<close> is \<open>d[k] = v\<close>: a key that is present keeps its
  place and takes the new value. \<open>dict_of\<close> builds the dict of a literal, whose entries
  are stored from left to right.
\<close>

fun dict_set :: "('k \<times> 'v) list \<Rightarrow> 'k \<Rightarrow> 'v \<Rightarrow> ('k \<times> 'v) list" where
  "dict_set [] k v = [(k, v)]"
| "dict_set ((k', v') # d) k v =
     (if k' = k then (k, v) # d else (k', v') # dict_set d k v)"

definition dict_of :: "('k \<times> 'v) list \<Rightarrow> ('k \<times> 'v) list" where
  "dict_of entries = foldl (\<lambda>d (k, v). dict_set d k v) [] entries"

text \<open>\<open>d.get(k)\<close> and \<open>d.keys()\<close>.\<close>

definition dict_get :: "('k \<times> 'v) list \<Rightarrow> 'k \<Rightarrow> 'v option" where
  "dict_get d k = map_of d k"

definition dict_keys :: "('k \<times> 'v) list \<Rightarrow> 'k list" where
  "dict_keys d = map fst d"

text \<open>\<open>word.startswith(p)\<close>, \<open>word.endswith(s)\<close>, \<open>sub in word\<close> and \<open>word[:-n]\<close>.\<close>

definition startswith :: "string \<Rightarrow> string \<Rightarrow> bool" where
  "startswith word p = (take (length p) word = p)"

definition endswith :: "string \<Rightarrow> string \<Rightarrow> bool" where
  "endswith word s = (length s \<le> length word \<and> drop (length word - length s) word = s)"

fun contains :: "string \<Rightarrow> string \<Rightarrow> bool" where
  "contains [] sub = (sub = [])"
| "contains (c # cs) sub = (take (length sub) (c # cs) = sub \<or> contains cs sub)"

definition slice_to_neg :: "string \<Rightarrow> nat \<Rightarrow> string" where
  "slice_to_neg word n = (if n = 0 then [] else take (length word - n) word)"

text \<open>
  \<open>s.replace(old, new)\<close>: the occurrences of \<open>old\<close> from the left, not overlapping. An
  empty \<open>old\<close> puts \<open>new\<close> before every character and at the end.
\<close>

function str_replace :: "string \<Rightarrow> string \<Rightarrow> string \<Rightarrow> string" where
  "str_replace old new [] = (if old = [] then new else [])"
| "str_replace old new (c # cs) =
     (if old = [] then new @ c # str_replace old new cs
      else if take (length old) (c # cs) = old
           then new @ str_replace old new (drop (length old) (c # cs))
           else c # str_replace old new cs)"
  by pat_completeness auto
termination
  by (relation "measure (\<lambda>(old, new, s). length s)") auto

text \<open>
  \<open>re.sub(re.escape(old), new, s, flags=re.IGNORECASE)\<close>: the same scan, an occurrence
  being a stretch of \<open>s\<close> that equals \<open>old\<close> up to the case of its letters. The
  replacement strings of the tables are taken to hold no backslash, so that the
  replacement template of \<open>re.sub\<close> is the string itself.
\<close>

function re_sub_ic :: "string \<Rightarrow> string \<Rightarrow> string \<Rightarrow> string" where
  "re_sub_ic old new [] = (if old = [] then new else [])"
| "re_sub_ic old new (c # cs) =
     (if old = [] then new @ c # re_sub_ic old new cs
      else if lower (take (length old) (c # cs)) = lower old
           then new @ re_sub_ic old new (drop (length old) (c # cs))
           else c # re_sub_ic old new cs)"
  by pat_completeness auto
termination
  by (relation "measure (\<lambda>(old, new, s). length s)") auto

text \<open>
  \<open>text.split()\<close>: the maximal stretches without whitespace. Whitespace is the code
  points 9 to 13 and 28 to 32, the next-line control \<open>0x85\<close> and the no-break space
  \<open>0xA0\<close>.
\<close>

definition is_space :: "char \<Rightarrow> bool" where
  "is_space c = ((9 \<le> (of_char c :: nat) \<and> (of_char c :: nat) \<le> 13)
     \<or> (28 \<le> (of_char c :: nat) \<and> (of_char c :: nat) \<le> 32)
     \<or> (of_char c :: nat) = 133 \<or> (of_char c :: nat) = 160)"

function split :: "string \<Rightarrow> string list" where
  "split s =
     (case dropWhile is_space s of
        [] \<Rightarrow> []
      | c # cs \<Rightarrow> takeWhile (\<lambda>x. \<not> is_space x) (c # cs)
                 # split (dropWhile (\<lambda>x. \<not> is_space x) (c # cs)))"
  by pat_completeness auto
termination
proof (relation "measure length", goal_cases)
  case 1
  then show ?case by simp
next
  case (2 s c cs)
  have c: "\<not> is_space c"
    using hd_dropWhile [of is_space s] 2 by simp
  have "length (dropWhile (\<lambda>x. \<not> is_space x) cs) \<le> length cs"
    by (rule length_dropWhile_le)
  moreover have "length (c # cs) \<le> length s"
    using length_dropWhile_le [of is_space s] 2 by simp
  ultimately show ?case using c by simp
qed

declare split.simps [simp del]

text \<open>\<open>str.isdigit()\<close>.\<close>

definition isdigit :: "string \<Rightarrow> bool" where
  "isdigit s = (s \<noteq> [] \<and> list_all is_digit_char s)"

section \<open>Lemmatizer\<close>

record lemmatizer =
  prefix_rules :: "(string \<times> string list) list"
  suffix_rules :: "(string \<times> string) list"

text \<open>
  \<open>Lemmatizer.__init__\<close>. The literal of \<open>prefix_rules\<close> names the keys \<open>naka\<close> and \<open>nai\<close>
  twice.
\<close>

definition new_lemmatizer :: lemmatizer where
  "new_lemmatizer = \<lparr>
     prefix_rules = dict_of
       [(''nag'', [''nag'', ''mag'']),
        (''naka'', [''naka'', ''maka'']),
        (''nai'', [''nai'', ''mai'']),
        (''napa'', [''napa'', ''mapa'']),
        (''naging'', [''naging'', ''maging'']),
        (''naki'', [''naki'', ''maki'']),
        (''nang'', [''nang'', ''mang'']),
        (''naka'', [''naka'', ''ka'']),
        (''nai'', [''nai'', ''i'']),
        (''na'', [''na'', ''ma''])],
     suffix_rules = dict_of
       [(''ing'', ''''), (''an'', ''''), (''in'', ''''), (''ng'', ''''),
        (''han'', ''''), (''hin'', ''''), (''on'', ''''), (''un'', '''')] \<rparr>"

text \<open>The loop over \<open>prefix_rules.items()\<close>, left at the first prefix the word starts with.\<close>

fun prefix_loop :: "(string \<times> string list) list \<Rightarrow> string \<Rightarrow> string" where
  "prefix_loop [] word = word"
| "prefix_loop ((prefix, alternatives) # rules) word =
     (if startswith word prefix then drop (length prefix) word
      else prefix_loop rules word)"

text \<open>The loop over the keys of \<open>suffix_rules\<close>.\<close>

fun suffix_loop :: "string list \<Rightarrow> string \<Rightarrow> string" where
  "suffix_loop [] word = word"
| "suffix_loop (suffix # rules) word =
     (if endswith word suffix \<and> length word > length suffix
      then slice_to_neg word (length suffix)
      else suffix_loop rules word)"

definition lemmatize :: "lemmatizer \<Rightarrow> string \<Rightarrow> string" where
  "lemmatize lz word =
     (let original_word = word;
          word = prefix_loop (prefix_rules lz) word;
          word = suffix_loop (dict_keys (suffix_rules lz)) word
      in if length word < 2 then original_word else word)"

text \<open>
  The lemmatizer in the words of its description: the ordered tables, the first prefix
  the word starts with, then the first suffix that the candidate ends with and that
  leaves at least one character of it.
\<close>

definition prefix_table :: "string list" where
  "prefix_table =
     [''nag'', ''naka'', ''nai'', ''napa'', ''naging'', ''naki'', ''nang'', ''na'']"

definition suffix_table :: "string list" where
  "suffix_table = [''ing'', ''an'', ''in'', ''ng'', ''han'', ''hin'', ''on'', ''un'']"

definition lemmatize_spec :: "string \<Rightarrow> string" where
  "lemmatize_spec word =
     (let stripped =
            (case find (\<lambda>p. startswith word p) prefix_table of
               None \<Rightarrow> word
             | Some p \<Rightarrow> drop (length p) word);
          candidate =
            (case find (\<lambda>s. endswith stripped s \<and> length s < length stripped) suffix_table of
               None \<Rightarrow> stripped
             | Some s \<Rightarrow> take (length stripped - length s) stripped)
      in if length candidate < 2 then word else candidate)"

section \<open>FuzzyMatcher\<close>

fun best_match_loop :: "string \<Rightarrow> string \<times> real \<Rightarrow> string list \<Rightarrow> string \<times> real" where
  "best_match_loop word (best_match, best_score) [] = (best_match, best_score)"
| "best_match_loop word (best_match, best_score) (candidate # rest) =
     (let score = similarity word candidate
      in if score > best_score then best_match_loop word (candidate, score) rest
         else best_match_loop word (best_match, best_score) rest)"

definition find_best_match :: "string \<Rightarrow> string list \<Rightarrow> string \<times> real" where
  "find_best_match word candidates = best_match_loop word ('''', 0) candidates"

section \<open>LexiconManager\<close>

text \<open>
  The tables of the lexicon manager, as loaded: \<open>letter_variants\<close> (a letter and the
  variants that stand for it), \<open>jejemon_to_normal\<close> (the word mapping),
  \<open>common_replacements\<close>, the index \<open>variant_to_letter\<close> derived from
  \<open>letter_variants\<close>, and the set of canonical words.
\<close>

record lexicon_manager =
  letter_variants :: "(string \<times> string list) list"
  jejemon_to_normal :: "(string \<times> string) list"
  common_replacements :: "(string \<times> string) list"
  variant_to_letter :: "(string \<times> string) list"
  words_set :: "string set"

text \<open>\<open>_create_variant_to_letter\<close>: the inner and the outer loop.\<close>

fun variants_loop :: "(string \<times> string) list \<Rightarrow> string \<Rightarrow> string list \<Rightarrow> (string \<times> string) list" where
  "variants_loop variant_map letter [] = variant_map"
| "variants_loop variant_map letter (variant # variants) =
     variants_loop (dict_set variant_map (lower variant) (lower letter)) letter variants"

fun letters_loop :: "(string \<times> string) list \<Rightarrow> (string \<times> string list) list \<Rightarrow> (string \<times> string) list" where
  "letters_loop variant_map [] = variant_map"
| "letters_loop variant_map ((letter, variants) # rest) =
     letters_loop (variants_loop variant_map letter variants) rest"

definition create_variant_to_letter :: "(string \<times> string list) list \<Rightarrow> (string \<times> string) list" where
  "create_variant_to_letter lv = letters_loop [] lv"

text \<open>\<open>LexiconManager.__init__\<close>, from the contents of the three stores.\<close>

definition new_lexicon_manager ::
  "(string \<times> string) list \<Rightarrow> (string \<times> string) list \<Rightarrow> (string \<times> string list) list
     \<Rightarrow> string set \<Rightarrow> lexicon_manager" where
  "new_lexicon_manager j2n cr lv ws =
     \<lparr> letter_variants = lv, jejemon_to_normal = j2n, common_replacements = cr,
       variant_to_letter = create_variant_to_letter lv, words_set = ws \<rparr>"

definition is_in_words_txt :: "lexicon_manager \<Rightarrow> string \<Rightarrow> bool" where
  "is_in_words_txt lm word = (lower word \<in> words_set lm)"

definition get_normal_word :: "lexicon_manager \<Rightarrow> string \<Rightarrow> string option" where
  "get_normal_word lm jejemon_word = dict_get (jejemon_to_normal lm) (lower jejemon_word)"

definition get_all_jejemon_words :: "lexicon_manager \<Rightarrow> string list" where
  "get_all_jejemon_words lm = dict_keys (jejemon_to_normal lm)"

text \<open>
  \<open>sorted(self.variant_to_letter.keys(), key=len, reverse=True)\<close>, each key with its
  value: by falling length, entries of equal length in the order of the dict (Python's
  sort is stable, also when reversed).
\<close>

definition sorted_variants :: "(string \<times> string) list \<Rightarrow> (string \<times> string) list" where
  "sorted_variants v2l = sort_key (\<lambda>(variant, base). - int (length variant)) v2l"

fun variant_loop :: "(string \<times> string) list \<Rightarrow> string \<Rightarrow> string" where
  "variant_loop [] result = result"
| "variant_loop ((variant, base) # rest) result =
     (if variant = base then variant_loop rest result
      else if length variant = 1 then variant_loop rest (re_sub_ic variant base result)
      else if lower result = variant then variant_loop rest base
      else variant_loop rest result)"

fun common_loop :: "(string \<times> string) list \<Rightarrow> string \<Rightarrow> string" where
  "common_loop [] result = result"
| "common_loop ((old, new) # rest) result = common_loop rest (re_sub_ic old new result)"

definition apply_character_replacements :: "lexicon_manager \<Rightarrow> string \<Rightarrow> string" where
  "apply_character_replacements lm word =
     common_loop (common_replacements lm)
       (variant_loop (sorted_variants (variant_to_letter lm)) word)"

text \<open>
  The character replacement in the words of its description: what one variant does to
  the word, and the two passes.
\<close>

definition replace_variant_spec :: "string \<times> string \<Rightarrow> string \<Rightarrow> string" where
  "replace_variant_spec vb word =
     (case vb of (variant, base) \<Rightarrow>
        if variant = base then word
        else if length variant = 1
             then concat (map (\<lambda>c. if lower_char c = lower_char (hd variant) then base else [c]) word)
        else if lower word = lower variant then base
        else word)"

definition apply_character_replacements_spec :: "lexicon_manager \<Rightarrow> string \<Rightarrow> string" where
  "apply_character_replacements_spec lm word =
     foldl (\<lambda>result (old, new). re_sub_ic old new result)
       (foldl (\<lambda>result vb. replace_variant_spec vb result) word
          (sorted_variants (variant_to_letter lm)))
       (common_replacements lm)"

section \<open>Regular expressions of the normalizer\<close>

text \<open>
  The fixed patterns of the skip policy are regular: a pattern is a term of \<open>rx\<close>, and
  \<open>rx_match\<close> decides by derivatives whether a whole string belongs to it. An atom is a
  set of characters. \<open>rx_rep n\<close> is \<open>{n}\<close>, \<open>rx_rep_range m n\<close> is \<open>{m,n}\<close>, \<open>rx_rep_min m\<close> is
  \<open>{m,}\<close>, \<open>rx_opt\<close> is \<open>?\<close> and \<open>rx_plus\<close> is \<open>+\<close>.
\<close>

datatype rx = Null | Eps | Atom "char \<Rightarrow> bool" | Alt rx rx | Seq rx rx | Star rx

fun nullable :: "rx \<Rightarrow> bool" where
  "nullable Null = False"
| "nullable Eps = True"
| "nullable (Atom p) = False"
| "nullable (Alt r s) = (nullable r \<or> nullable s)"
| "nullable (Seq r s) = (nullable r \<and> nullable s)"
| "nullable (Star r) = True"

fun deriv :: "char \<Rightarrow> rx \<Rightarrow> rx" where
  "deriv c Null = Null"
| "deriv c Eps = Null"
| "deriv c (Atom p) = (if p c then Eps else Null)"
| "deriv c (Alt r s) = Alt (deriv c r) (deriv c s)"
| "deriv c (Seq r s) =
     (if nullable r then Alt (Seq (deriv c r) s) (deriv c s) else Seq (deriv c r) s)"
| "deriv c (Star r) = Seq (deriv c r) (Star r)"

fun rx_match :: "rx \<Rightarrow> string \<Rightarrow> bool" where
  "rx_match r [] = nullable r"
| "rx_match r (c # cs) = rx_match (deriv c r) cs"

definition rx_opt :: "rx \<Rightarrow> rx" where
  "rx_opt r = Alt Eps r"

definition rx_plus :: "rx \<Rightarrow> rx" where
  "rx_plus r = Seq r (Star r)"

fun rx_rep :: "nat \<Rightarrow> rx \<Rightarrow> rx" where
  "rx_rep 0 r = Eps"
| "rx_rep (Suc n) r = Seq r (rx_rep n r)"

fun rx_rep_upto :: "nat \<Rightarrow> rx \<Rightarrow> rx" where
  "rx_rep_upto 0 r = Eps"
| "rx_rep_upto (Suc n) r = rx_opt (Seq r (rx_rep_upto n r))"

definition rx_rep_range :: "nat \<Rightarrow> nat \<Rightarrow> rx \<Rightarrow> rx" where
  "rx_rep_range m n r = Seq (rx_rep m r) (rx_rep_upto (n - m) r)"

definition rx_rep_min :: "nat \<Rightarrow> rx \<Rightarrow> rx" where
  "rx_rep_min m r = Seq (rx_rep m r) (Star r)"

fun rx_seqs :: "rx list \<Rightarrow> rx" where
  "rx_seqs [] = Eps"
| "rx_seqs [r] = r"
| "rx_seqs (r # rs) = Seq r (rx_seqs rs)"

text \<open>
  The atoms of the patterns; all patterns are used with \<open>re.IGNORECASE\<close>. The class
  \<open>\d\<close> is the decimal digits: the superscripts and fractions of Latin-1 are not in it.
  No code point of Latin-1 beyond ASCII has its lower case in \<open>a\<close> to \<open>z\<close>, so \<open>[A-Z]\<close>
  without regard to case is the ASCII letters, and a literal letter matches its two
  ASCII cases.
\<close>

definition rx_lit :: "char \<Rightarrow> rx" where
  "rx_lit c = Atom (\<lambda>x. x = c)"

definition rx_one_of :: "string \<Rightarrow> rx" where
  "rx_one_of cs = Atom (\<lambda>x. x \<in> set cs)"

definition rx_digit :: rx where
  "rx_digit = Atom is_ascii_digit"

definition is_ascii_letter :: "char \<Rightarrow> bool" where
  "is_ascii_letter c = (is_ascii_upper c \<or> is_ascii_lower c)"

definition rx_letter :: rx where
  "rx_letter = Atom is_ascii_letter"

definition rx_letter_or_digit :: rx where
  "rx_letter_or_digit = Atom (\<lambda>c. is_ascii_letter c \<or> is_ascii_digit c)"

text \<open>
  \<open>re.match('^...$', word, re.IGNORECASE)\<close>: the whole word matches, or the word without
  a line feed at its end does (\<open>$\<close> also stands before a final line feed).
\<close>

definition re_match :: "rx \<Rightarrow> string \<Rightarrow> bool" where
  "re_match r word =
     (rx_match r word \<or> (word \<noteq> [] \<and> last word = CHR 0x0A \<and> rx_match r (butlast word)))"

definition number_patterns :: "rx list" where
  "number_patterns =
     [rx_rep 4 rx_digit,
      rx_seqs [rx_rep_range 1 2 rx_digit, rx_one_of ''-/'', rx_rep_range 1 2 rx_digit, rx_one_of ''-/'',
            rx_rep_range 2 4 rx_digit],
      rx_seqs [rx_rep_range 1 2 rx_digit, rx_lit CHR '':'', rx_rep 2 rx_digit,
            rx_opt (Seq (rx_lit CHR '':'') (rx_rep 2 rx_digit)),
            rx_opt (Seq (rx_one_of ''apAP'') (rx_one_of ''mM''))],
      rx_seqs [rx_plus rx_digit, rx_lit CHR ''.'', rx_plus rx_digit],
      rx_seqs [rx_plus rx_digit, rx_lit CHR '','', rx_plus rx_digit],
      rx_seqs [rx_plus rx_digit, rx_lit CHR ''%''],
      rx_seqs [rx_lit CHR ''#'', rx_plus rx_digit],
      rx_seqs [rx_lit CHR ''$'', rx_plus rx_digit, rx_opt (Seq (rx_lit CHR ''.'') (rx_rep 2 rx_digit))]]"

definition alphanumeric_patterns :: "rx list" where
  "alphanumeric_patterns =
     [rx_seqs [rx_rep_min 2 rx_letter, rx_rep_min 2 rx_digit],
      rx_seqs [rx_rep_min 3 rx_digit, rx_rep_min 2 rx_letter],
      rx_seqs [rx_rep_min 5 rx_letter_or_digit, rx_lit CHR ''-'', rx_rep_min 3 rx_letter_or_digit],
      rx_seqs [rx_rep_min 3 rx_letter, rx_rep_min 3 rx_digit, rx_rep_min 2 rx_letter]]"

text \<open>A loop over patterns that returns at the first one that matches.\<close>

fun matches_any :: "rx list \<Rightarrow> string \<Rightarrow> bool" where
  "matches_any [] word = False"
| "matches_any (p # ps) word = (if re_match p word then True else matches_any ps word)"

section \<open>JejemonNormalizer\<close>

text \<open>
  A context rule holds a pattern and a replacement. The patterns come from a store that
  is not part of the sources, so a pattern is given by what
  \<open>re.search(rule['pattern'], word, re.IGNORECASE)\<close> answers for each word.
\<close>

record context_rule =
  pattern :: "string \<Rightarrow> bool"
  replacement :: string

record char_rules =
  context_rules :: "context_rule list"
  default_replacement :: string

record normalizer =
  lexicon_manager :: lexicon_manager
  lemmatizer :: lemmatizer
  context_replacements :: "(string \<times> char_rules) list"

abbreviation apostrophe :: char where
  "apostrophe \<equiv> CHR 0x27"

abbreviation backtick :: char where
  "backtick \<equiv> CHR 0x60"

definition meaningful_punctuation :: "char list" where
  "meaningful_punctuation =
     [apostrophe, CHR 0x22, CHR ''-'', CHR ''_'', CHR ''.'', CHR ''!'', CHR ''?'', CHR '','',
      CHR '';'', CHR '':'', CHR ''+'', CHR ''('', CHR '')'', CHR ''['', CHR '']'', CHR ''{'',
      CHR ''}'', CHR ''/'', CHR 0x5C, CHR ''|'', CHR ''@'', CHR ''#'', CHR ''$'', CHR ''%'']"

text \<open>\<open>if value:\<close> for an optional string: neither \<open>None\<close> nor empty.\<close>

definition truthy :: "string option \<Rightarrow> bool" where
  "truthy v = (case v of None \<Rightarrow> False | Some s \<Rightarrow> s \<noteq> [])"

definition should_apply_character_replacement :: "normalizer \<Rightarrow> string \<Rightarrow> bool" where
  "should_apply_character_replacement nz word =
     (if is_in_words_txt (lexicon_manager nz) word then False
      else if truthy (get_normal_word (lexicon_manager nz) word) then False
      else if isdigit word \<and> length word \<ge> 3 then False
      else if matches_any number_patterns word then False
      else if matches_any alphanumeric_patterns word then False
      else True)"

text \<open>
  The loops \<open>for punct, replacement in meaningful_patterns: if punct in s: s =
  s.replace(punct, replacement)\<close> of the two punctuation functions.
\<close>

fun replace_loop :: "(string \<times> string) list \<Rightarrow> string \<Rightarrow> string" where
  "replace_loop [] s = s"
| "replace_loop ((punct, repl) # rest) s =
     (if contains s punct then replace_loop rest (str_replace punct repl s)
      else replace_loop rest s)"

definition word_patterns :: "(string \<times> string) list" where
  "word_patterns =
     [([apostrophe, CHR ''s''], ''s''), ([apostrophe, CHR ''t''], ''t''),
      ([apostrophe, CHR ''r'', CHR ''e''], ''re''), ([apostrophe, CHR ''v'', CHR ''e''], ''ve''),
      ([apostrophe, CHR ''l'', CHR ''l''], ''ll''), ([apostrophe, CHR ''d''], ''d''),
      ([apostrophe, CHR ''m''], ''m''), ([apostrophe, CHR ''r'', CHR ''e''], ''re''),
      ([apostrophe], []), ([backtick], []), ([apostrophe], [])]"

definition evaluate_punctuation_value :: "normalizer \<Rightarrow> string \<Rightarrow> string \<times> bool" where
  "evaluate_punctuation_value nz word =
     (if \<not> list_ex (\<lambda>p. contains word [p]) meaningful_punctuation then (word, False)
      else
        let original_word = word;
            modified_word = replace_loop word_patterns word;
            original_mapped = get_normal_word (lexicon_manager nz) original_word;
            modified_mapped = get_normal_word (lexicon_manager nz) modified_word
        in if truthy original_mapped \<and> \<not> truthy modified_mapped
             then (the original_mapped, False)
           else if truthy modified_mapped \<and> \<not> truthy original_mapped
             then (the modified_mapped, True)
           else if truthy original_mapped \<and> truthy modified_mapped
             then (the modified_mapped, True)
           else (original_word, False))"

text \<open>
  The punctuation evaluation in the words of its description: the marker list without
  its repetitions, and the precedence of the two lookups.
\<close>

definition contraction_markers :: "(string \<times> string) list" where
  "contraction_markers =
     [([apostrophe, CHR ''s''], ''s''), ([apostrophe, CHR ''t''], ''t''),
      ([apostrophe, CHR ''r'', CHR ''e''], ''re''), ([apostrophe, CHR ''v'', CHR ''e''], ''ve''),
      ([apostrophe, CHR ''l'', CHR ''l''], ''ll''), ([apostrophe, CHR ''d''], ''d''),
      ([apostrophe, CHR ''m''], ''m''), ([apostrophe], []), ([backtick], [])]"

definition strip_markers :: "string \<Rightarrow> string" where
  "strip_markers word =
     foldl (\<lambda>s (punct, repl). str_replace punct repl s) word contraction_markers"

definition evaluate_punctuation_spec :: "normalizer \<Rightarrow> string \<Rightarrow> string \<times> bool" where
  "evaluate_punctuation_spec nz word =
     (let original_mapped = get_normal_word (lexicon_manager nz) word;
          modified_mapped = get_normal_word (lexicon_manager nz) (strip_markers word)
      in if truthy original_mapped \<and> \<not> truthy modified_mapped then (the original_mapped, False)
         else if truthy modified_mapped then (the modified_mapped, True)
         else (word, False))"

text \<open>
  \<open>normalize_word\<close>. Each block of the function that can return is a function to an
  option: \<open>Some\<close> is the value returned, \<open>None\<close> means that control goes on.
\<close>

definition direct_mapping :: "lexicon_manager \<Rightarrow> string \<Rightarrow> string option" where
  "direct_mapping lm word =
     (let normal_word = get_normal_word lm word
      in if truthy normal_word then normal_word else None)"

definition replacement_step :: "normalizer \<Rightarrow> string \<Rightarrow> string option" where
  "replacement_step nz word =
     (if should_apply_character_replacement nz word
      then let modified_word = apply_character_replacements (lexicon_manager nz) word
           in if modified_word \<noteq> word then direct_mapping (lexicon_manager nz) modified_word
              else None
      else None)"

definition fuzzy_step :: "lexicon_manager \<Rightarrow> string list \<Rightarrow> string \<Rightarrow> string option" where
  "fuzzy_step lm jejemon_words word =
     (if jejemon_words \<noteq> []
      then let (best_match, score) = find_best_match word jejemon_words
           in if score > 0.6 then direct_mapping lm best_match else None
      else None)"

definition lemma_step :: "normalizer \<Rightarrow> string list \<Rightarrow> string \<Rightarrow> string option" where
  "lemma_step nz jejemon_words word =
     (let lemmatized = lemmatize (lemmatizer nz) word
      in if lemmatized \<noteq> word
         then (case direct_mapping (lexicon_manager nz) lemmatized of
                 Some normal_word \<Rightarrow> Some normal_word
               | None \<Rightarrow> fuzzy_step (lexicon_manager nz) jejemon_words lemmatized)
         else None)"

definition normalize_word :: "normalizer \<Rightarrow> string \<Rightarrow> string" where
  "normalize_word nz word =
     (if is_in_words_txt (lexicon_manager nz) word then word
      else case direct_mapping (lexicon_manager nz) word of
        Some normal_word \<Rightarrow> normal_word
      | None \<Rightarrow>
       (case replacement_step nz word of
          Some normal_word \<Rightarrow> normal_word
        | None \<Rightarrow>
         (let jejemon_words = get_all_jejemon_words (lexicon_manager nz)
          in case fuzzy_step (lexicon_manager nz) jejemon_words word of
               Some matched_normal \<Rightarrow> matched_normal
             | None \<Rightarrow>
              (case lemma_step nz jejemon_words word of
                 Some normal \<Rightarrow> normal
               | None \<Rightarrow> word))))"

text \<open>
  The word resolution in the words of its description: six steps, the first that
  succeeds gives the result. \<open>lookup\<close> is the direct lexicon mapping, \<open>fuzzy_rule\<close> the
  acceptance rule of the steps 4 and 5.
\<close>

definition fuzzy_rule :: "lexicon_manager \<Rightarrow> string \<Rightarrow> string option" where
  "fuzzy_rule lm word =
     (let (best_match, score) = find_best_match word (get_all_jejemon_words lm)
      in if score > 0.6 then direct_mapping lm best_match else None)"

definition resolution_steps :: "normalizer \<Rightarrow> string \<Rightarrow> string option list" where
  "resolution_steps nz word =
     [if is_in_words_txt (lexicon_manager nz) word then Some word else None,
      direct_mapping (lexicon_manager nz) word,
      if should_apply_character_replacement nz word
      then direct_mapping (lexicon_manager nz)
             (apply_character_replacements (lexicon_manager nz) word)
      else None,
      fuzzy_rule (lexicon_manager nz) word,
      if lemmatize (lemmatizer nz) word \<noteq> word
      then (case direct_mapping (lexicon_manager nz) (lemmatize (lemmatizer nz) word) of
              Some normal_word \<Rightarrow> Some normal_word
            | None \<Rightarrow> fuzzy_rule (lexicon_manager nz) (lemmatize (lemmatizer nz) word))
      else None,
      Some word]"

fun first_success :: "string option list \<Rightarrow> string option" where
  "first_success [] = None"
| "first_success (None # steps) = first_success steps"
| "first_success (Some v # steps) = Some v"

text \<open>\<open>_apply_punctuation_evaluation_to_text\<close>.\<close>

definition text_patterns :: "(string \<times> string) list" where
  "text_patterns =
     [([apostrophe, CHR ''s''], ''s''), ([apostrophe, CHR ''t''], ''t''),
      ([apostrophe, CHR ''r'', CHR ''e''], ''re''), ([apostrophe, CHR ''v'', CHR ''e''], ''ve''),
      ([apostrophe, CHR ''l'', CHR ''l''], ''ll''), ([apostrophe, CHR ''d''], ''d''),
      ([apostrophe, CHR ''m''], ''m''), ([apostrophe], []), ([backtick], [])]"

text \<open>
  The two \<open>re.sub\<close> of the cleanup take the characters of \<open>meaningful_punctuation\<close>
  other than \<open>+\<close> and \<open>@\<close> from the start and from the end of a word. (A word comes from
  \<open>split\<close> and holds no line feed, so \<open>$\<close> is the end of the word.)
\<close>

definition strippable :: "char \<Rightarrow> bool" where
  "strippable c = (c \<in> set meaningful_punctuation \<and> c \<notin> set ''+@'')"

definition clean_word :: "string \<Rightarrow> string" where
  "clean_word word =
     (let cleaned = dropWhile strippable word
      in rev (dropWhile strippable (rev cleaned)))"

fun cleanup_loop :: "lexicon_manager \<Rightarrow> string list \<Rightarrow> string list" where
  "cleanup_loop lm [] = []"
| "cleanup_loop lm (word # rest) =
     (if truthy (get_normal_word lm word) then word # cleanup_loop lm rest
      else clean_word word # cleanup_loop lm rest)"

definition apply_punctuation_evaluation_to_text :: "normalizer \<Rightarrow> string \<Rightarrow> string" where
  "apply_punctuation_evaluation_to_text nz text =
     (let text = replace_loop text_patterns text;
          cleaned_words = cleanup_loop (lexicon_manager nz) (split text)
      in join '' '' cleaned_words)"

text \<open>\<open>_apply_character_replacements_to_text\<close>.\<close>

fun context_loop :: "(string \<times> char_rules) list \<Rightarrow> string \<Rightarrow> string" where
  "context_loop [] result = result"
| "context_loop ((char, rules) # rest) result =
     (if contains result char
      then (case find (\<lambda>rule. pattern rule result) (context_rules rules) of
              Some rule \<Rightarrow> context_loop rest (str_replace char (replacement rule) result)
            | None \<Rightarrow> context_loop rest (str_replace char (default_replacement rules) result))
      else context_loop rest result)"

fun words_loop :: "normalizer \<Rightarrow> string list \<Rightarrow> string list" where
  "words_loop nz [] = []"
| "words_loop nz (word # rest) =
     (if \<not> should_apply_character_replacement nz word then word # words_loop nz rest
      else apply_character_replacements (lexicon_manager nz)
             (context_loop (context_replacements nz) word) # words_loop nz rest)"

definition apply_character_replacements_to_text :: "normalizer \<Rightarrow> string \<Rightarrow> string" where
  "apply_character_replacements_to_text nz text = join '' '' (words_loop nz (split text))"

text \<open>\<open>normalize_text\<close>; the result is the dict of the five staged strings.\<close>

definition normalize_text :: "normalizer \<Rightarrow> string \<Rightarrow> (string \<times> string) list" where
  "normalize_text nz text =
     (let result = dict_of [(''original'', text), (''punctuation_evaluated'', []),
                            (''character_replaced'', []), (''tokenized'', []),
                            (''normalized'', [])];
          punctuation_evaluated_text = apply_punctuation_evaluation_to_text nz text;
          result = dict_set result ''punctuation_evaluated'' punctuation_evaluated_text;
          character_replaced_text =
            apply_character_replacements_to_text nz punctuation_evaluated_text;
          result = dict_set result ''character_replaced'' character_replaced_text;
          tokens = tokenize character_replaced_text;
          result = dict_set result ''tokenized'' (join '' '' tokens);
          normalized_tokens = map (normalize_word nz) tokens;
          result = dict_set result ''normalized'' (detokenize normalized_tokens)
      in result)"

text \<open>\<open>get_normalization_confidence\<close>.\<close>

fun confidence_loop :: "real \<Rightarrow> (string \<times> string) list \<Rightarrow> real" where
  "confidence_loop total_confidence [] = total_confidence"
| "confidence_loop total_confidence ((orig_word, norm_word) # rest) =
     (if orig_word = norm_word then confidence_loop (total_confidence + 1) rest
      else confidence_loop (total_confidence + similarity orig_word norm_word) rest)"

definition get_normalization_confidence :: "string \<Rightarrow> string \<Rightarrow> real" where
  "get_normalization_confidence original normalized =
     (if original = normalized then 0
      else
        let original_tokens = tokenize original;
            normalized_tokens = tokenize normalized
        in if length original_tokens \<noteq> length normalized_tokens then 0.5
           else if original_tokens = [] then 0
           else confidence_loop 0 (zip original_tokens normalized_tokens)
                  / real (length original_tokens))"

text \<open>The score of one aligned pair of tokens.\<close>

definition pair_score :: "string \<times> string \<Rightarrow> real" where
  "pair_score p = (case p of (a, b) \<Rightarrow> if a = b then 1 else similarity a b)"

text \<open>A word without its apostrophes and backticks.\<close>

definition unquote :: "string \<Rightarrow> string" where
  "unquote s = filter (\<lambda>c. c \<noteq> backtick) (filter (\<lambda>c. c \<noteq> apostrophe) s)"

text \<open>A normalizer whose lexicon maps \<open>juz\<close> to \<open>just\<close>, with no other rule.\<close>

definition nz_juz :: normalizer where
  "nz_juz = \<lparr> lexicon_manager = new_lexicon_manager [(''juz'', ''just'')] [] [] {},
              lemmatizer = new_lemmatizer, context_replacements = [] \<rparr>"

text \<open>
  A short mixed alphanumeric word: at most 3 characters, letters and digits only, at least
  one letter.
\<close>

definition short_mixed :: "string \<Rightarrow> bool" where
  "short_mixed word =
     (length word \<le> 3 \<and> list_all (\<lambda>c. is_ascii_letter c \<or> is_ascii_digit c) word
      \<and> list_ex is_ascii_letter word)"

text \<open>The variable \<open>tokens\<close> of \<open>normalize_text\<close>.\<close>

definition staged_tokens :: "normalizer \<Rightarrow> string \<Rightarrow> string list" where
  "staged_tokens nz text =
     tokenize (apply_character_replacements_to_text nz
       (apply_punctuation_evaluation_to_text nz text))"

text \<open>A normalizer whose lexicon maps \<open>u2\<close> to \<open>you too\<close>, with no other rule.\<close>

definition nz_u2 :: normalizer where
  "nz_u2 = \<lparr> lexicon_manager = new_lexicon_manager [(''u2'', ''you too'')] [] [] {},
             lemmatizer = new_lemmatizer, context_replacements = [] \<rparr>"

section \<open>Lemmas: characters\<close>

lemmas char_class_defs = is_ascii_upper_def is_ascii_lower_def is_ascii_digit_def
  is_latin1_upper_def is_latin1_lower_def is_latin1_ordinal_def is_alpha_char_def
  is_digit_char_def is_numeric_char_def is_word_char_def

lemmas char_eval = lower_def lower_char_def char_class_defs char_of_def bit_iff_odd

lemma lower_char_idem: "lower_char (lower_char c) = lower_char c"
  by (auto simp: lower_char_def is_ascii_upper_def is_latin1_upper_def)

lemma latin1_examples:
  "lower [CHR 0xD1] = [CHR 0xF1]
   \<and> lower [CHR 0xC0, CHR 0xD7, CHR 0xDE, CHR 0xDF, CHR 0xB5, CHR 0xFF]
       = [CHR 0xE0, CHR 0xD7, CHR 0xFE, CHR 0xDF, CHR 0xB5, CHR 0xFF]
   \<and> is_word_char (CHR 0xF1) \<and> is_word_char (CHR 0xB2) \<and> is_word_char (CHR 0xBD)
   \<and> is_word_char (CHR 0xAA) \<and> \<not> is_word_char (CHR 0xD7) \<and> \<not> is_word_char (CHR 0xF7)
   \<and> \<not> is_word_char (CHR 0xA0) \<and> \<not> is_word_char (CHR 0xBF)
   \<and> isdigit [CHR 0xB2, CHR 0xB2, CHR 0xB2] \<and> \<not> isdigit [CHR 0xBD] \<and> \<not> isdigit []
   \<and> split [CHR ''a'', CHR 0xA0, CHR ''b''] = [''a'', ''b'']
   \<and> split [CHR ''a'', CHR 0x85, CHR 0x1F, CHR ''b'', CHR 0x09] = [''a'', ''b'']"
  by code_simp

lemma tokenize_latin1_examples:
  "tokenize [CHR ''n'', CHR ''i'', CHR 0xF1, CHR ''o''] = [[CHR ''n'', CHR ''i'', CHR 0xF1, CHR ''o'']]
   \<and> tokenize [CHR ''N'', CHR ''I'', CHR 0xD1, CHR ''O'', CHR 0xA0, CHR ''x'', CHR 0xD7, CHR ''y'', CHR ''!'']
       = [[CHR ''n'', CHR ''i'', CHR 0xF1, CHR ''o''], ''x'', ''y'']
   \<and> tokenize [CHR 0xBF, CHR ''q'', CHR ''u'', CHR 0xE9, CHR ''?''] = [[CHR ''q'', CHR ''u'', CHR 0xE9]]
   \<and> tokenize [CHR ''m'', CHR 0xB2, CHR ''!'', CHR 0xBD] = [[CHR ''m'', CHR 0xB2, CHR ''!'', CHR 0xBD]]"
  by code_simp

lemma lower_join: "lower (join '' '' xs) = join '' '' (map lower xs)"
  by (induction xs rule: induct_list012) (simp_all add: char_eval)

section \<open>Lemmas: the rolling rows compute the edit distance\<close>

lemma lev_Nil2 [simp]: "lev xs [] = length xs"
  by (cases xs) simp_all

lemma lev_sym: "lev xs ys = lev ys xs"
  by (induction xs ys rule: lev.induct) (auto simp: min.commute min.left_commute)

lemma lev_refl [simp]: "lev xs xs = 0"
  by (induction xs) simp_all

lemma lev_le_max: "lev xs ys \<le> max (length xs) (length ys)"
  by (induction xs ys rule: lev.induct) (auto simp: min_def)

lemma dist_pref_Suc_Suc:
  assumes "i < length s1" "j < length s2"
  shows "dist_pref s1 s2 (Suc i) (Suc j) =
     min (dist_pref s1 s2 i (Suc j) + 1)
       (min (dist_pref s1 s2 (Suc i) j + 1)
            (dist_pref s1 s2 i j + (if s1 ! i \<noteq> s2 ! j then 1 else 0)))"
  using assms by (simp add: dist_pref_def take_Suc_conv_app_nth)

lemma dist_pref_0 [simp]: "j \<le> length s2 \<Longrightarrow> dist_pref s1 s2 0 j = j"
  by (simp add: dist_pref_def)

lemma dist_pref_0' [simp]: "i \<le> length s1 \<Longrightarrow> dist_pref s1 s2 i 0 = i"
  by (simp add: dist_pref_def)

lemma drop_enumerate_Cons:
  "k < length xs \<Longrightarrow> drop k (enumerate 0 xs) = (k, xs ! k) # drop (Suc k) (enumerate 0 xs)"
  using Cons_nth_drop_Suc [of k "enumerate 0 xs"] by (simp add: nth_enumerate_eq)

lemma inner_loop_row:
  assumes "i < length s1"
    and "previous_row = map (dist_pref s1 s2 i) [0..<Suc (length s2)]"
    and "k \<le> length s2"
    and "current_row = map (dist_pref s1 s2 (Suc i)) [0..<Suc k]"
  shows "inner_loop (s1 ! i) previous_row current_row (drop k (enumerate 0 s2)) =
           map (dist_pref s1 s2 (Suc i)) [0..<Suc (length s2)]"
  using assms(3,4)
proof (induction "length s2 - k" arbitrary: k current_row)
  case 0
  then show ?case by simp
next
  case (Suc m)
  then have k: "k < length s2" by simp
  have p1: "previous_row ! (k + 1) = dist_pref s1 s2 i (Suc k)"
    using k unfolding assms(2) by (simp only: nth_map_upt) simp
  have p0: "previous_row ! k = dist_pref s1 s2 i k"
    using k unfolding assms(2) by (subst nth_map_upt) simp_all
  have c: "current_row ! k = dist_pref s1 s2 (Suc i) k"
    unfolding Suc.prems(2) by (subst nth_map_upt) simp_all
  have step: "current_row @ [min (previous_row ! (k + 1) + 1)
        (min (current_row ! k + 1) (previous_row ! k + (if s1 ! i \<noteq> s2 ! k then 1 else 0)))]
      = map (dist_pref s1 s2 (Suc i)) [0..<Suc (Suc k)]"
    unfolding p1 p0 c using dist_pref_Suc_Suc [OF assms(1) k] Suc.prems(2) by simp
  have "inner_loop (s1 ! i) previous_row current_row (drop k (enumerate 0 s2)) =
        inner_loop (s1 ! i) previous_row (map (dist_pref s1 s2 (Suc i)) [0..<Suc (Suc k)])
          (drop (Suc k) (enumerate 0 s2))"
    unfolding drop_enumerate_Cons [OF k] inner_loop.simps Let_def step ..
  also have "\<dots> = map (dist_pref s1 s2 (Suc i)) [0..<Suc (length s2)]"
    using Suc.hyps(2) k by (intro Suc.hyps(1)) simp_all
  finally show ?case .
qed

lemma outer_loop_row:
  assumes "i \<le> length s1"
    and "previous_row = map (dist_pref s1 s2 i) [0..<Suc (length s2)]"
  shows "outer_loop s2 previous_row (drop i (enumerate 0 s1)) =
           map (dist_pref s1 s2 (length s1)) [0..<Suc (length s2)]"
  using assms
proof (induction "length s1 - i" arbitrary: i previous_row)
  case 0
  then show ?case by simp
next
  case (Suc m)
  then have i: "i < length s1" by simp
  have "inner_loop (s1 ! i) previous_row [i + 1] (drop 0 (enumerate 0 s2)) =
          map (dist_pref s1 s2 (Suc i)) [0..<Suc (length s2)]"
    using i by (intro inner_loop_row [OF i Suc.prems(2)]) simp_all
  then have inner: "inner_loop (s1 ! i) previous_row [i + 1] (enumerate 0 s2) =
          map (dist_pref s1 s2 (Suc i)) [0..<Suc (length s2)]"
    by simp
  have "outer_loop s2 previous_row (drop i (enumerate 0 s1)) =
        outer_loop s2 (map (dist_pref s1 s2 (Suc i)) [0..<Suc (length s2)])
          (drop (Suc i) (enumerate 0 s1))"
    unfolding drop_enumerate_Cons [OF i] outer_loop.simps inner ..
  also have "\<dots> = map (dist_pref s1 s2 (length s1)) [0..<Suc (length s2)]"
    using Suc.hyps(2) i by (intro Suc.hyps(1)) simp_all
  finally show ?case .
qed

lemma outer_loop_last:
  "last (outer_loop s2 [0..<length s2 + 1] (enumerate 0 s1)) = lev (rev s1) (rev s2)"
proof -
  have init: "[0..<length s2 + 1] = map (dist_pref s1 s2 0) [0..<Suc (length s2)]"
    by (rule nth_equalityI) (simp_all add: nth_map_upt del: upt_Suc)
  have "outer_loop s2 [0..<length s2 + 1] (drop 0 (enumerate 0 s1)) =
          map (dist_pref s1 s2 (length s1)) [0..<Suc (length s2)]"
    by (rule outer_loop_row [OF _ init]) simp
  then show ?thesis by (simp add: dist_pref_def)
qed

lemma calculate_lev: "calculate s1 s2 = lev (rev s1) (rev s2)"
proof (induction s1 s2 rule: calculate.induct)
  case (1 s1 s2)
  show ?case
  proof (cases "length s1 < length s2")
    case True
    then have "calculate s1 s2 = calculate s2 s1" by (simp add: calculate.simps)
    also have "\<dots> = lev (rev s2) (rev s1)" using True by (rule "1.IH")
    finally show ?thesis by (simp add: lev_sym)
  next
    case False
    then have unfold: "calculate s1 s2 =
        (if length s2 = 0 then length s1
         else last (outer_loop s2 [0..<length s2 + 1] (enumerate 0 s1)))"
      by (subst calculate.simps) (simp only: if_False)
    show ?thesis
      unfolding unfold outer_loop_last by simp
  qed
qed

lemma calculate_le_max: "calculate a b \<le> max (length a) (length b)"
  using lev_le_max [of "rev a" "rev b"] by (simp add: calculate_lev)

lemma similarity_nonneg: "0 \<le> similarity a b"
  using calculate_le_max [of a b] by (auto simp: similarity_def Let_def divide_le_eq)

lemma similarity_le_1: "similarity a b \<le> 1"
  by (auto simp: similarity_def Let_def)

section \<open>Lemmas: the scan of the tokenizer\<close>

lemma token_char_word: "is_word_char c \<Longrightarrow> token_char c"
  by (simp add: token_char_def)

lemma backtrack_Some_length:
  "backtrack consumed rest = Some t \<Longrightarrow> t \<noteq> [] \<and> length t \<le> length consumed"
  by (induction consumed rest rule: backtrack.induct) (auto split: if_splits)

lemma match_word_pattern_Some_length:
  assumes "match_word_pattern prev s = Some t"
  shows "t \<noteq> [] \<and> length t \<le> length s"
proof -
  from assms have "backtrack (rev (takeWhile token_char s)) (dropWhile token_char s) = Some t"
    by (simp add: match_word_pattern_def split: if_splits)
  from backtrack_Some_length [OF this] length_takeWhile_le [of token_char s]
  show ?thesis by simp
qed

lemma not_is_w_next_dropWhile: "\<not> is_w (next_char (dropWhile token_char s))"
proof (cases "dropWhile token_char s")
  case Nil
  show ?thesis unfolding Nil by (simp add: next_char_def is_w_def)
next
  case (Cons c cs)
  then have "\<not> token_char c" using hd_dropWhile [of token_char s] by auto
  then show ?thesis using Cons token_char_word by (auto simp: next_char_def is_w_def)
qed

text \<open>Giving characters back stops at the last word character of the run.\<close>

lemma backtrack_eq:
  "\<not> is_w (next_char rest) \<Longrightarrow>
   backtrack consumed rest =
     (case dropWhile (\<lambda>c. \<not> is_word_char c) consumed of
        [] \<Rightarrow> None | t \<Rightarrow> Some (rev t))"
proof (induction consumed arbitrary: rest)
  case Nil
  then show ?case by simp
next
  case (Cons c consumed)
  show ?case
  proof (cases "is_word_char c")
    case True
    then show ?thesis using Cons.prems by (simp add: at_boundary_def is_w_def)
  next
    case False
    then have "\<not> is_w (next_char (c # rest))" by (simp add: next_char_def is_w_def)
    from Cons.IH [OF this] False Cons.prems show ?thesis
      by (simp add: at_boundary_def is_w_def)
  qed
qed

lemma match_word_pattern_eq:
  "match_word_pattern prev s =
     (if at_boundary prev s \<and> strip_tail (takeWhile token_char s) \<noteq> []
      then Some (strip_tail (takeWhile token_char s)) else None)"
proof -
  define d where "d = dropWhile (\<lambda>c. \<not> is_word_char c) (rev (takeWhile token_char s))"
  have st: "strip_tail (takeWhile token_char s) = rev d"
    by (simp add: strip_tail_def d_def)
  have "backtrack (rev (takeWhile token_char s)) (dropWhile token_char s) =
      (case d of [] \<Rightarrow> None | t \<Rightarrow> Some (rev t))"
    unfolding d_def by (rule backtrack_eq [OF not_is_w_next_dropWhile])
  then have "backtrack (rev (takeWhile token_char s)) (dropWhile token_char s) =
      (if rev d \<noteq> [] then Some (rev d) else None)"
    by (cases d) simp_all
  then show ?thesis by (simp add: match_word_pattern_def st)
qed

lemma strip_tail_decomp:
  "r = strip_tail r @ rev (takeWhile (\<lambda>c. \<not> is_word_char c) (rev r))"
proof -
  have "rev (dropWhile (\<lambda>c. \<not> is_word_char c) (rev r)) @ rev (takeWhile (\<lambda>c. \<not> is_word_char c) (rev r))
      = rev (takeWhile (\<lambda>c. \<not> is_word_char c) (rev r) @ dropWhile (\<lambda>c. \<not> is_word_char c) (rev r))"
    by (simp only: rev_append)
  also have "\<dots> = r"
    by (simp only: takeWhile_dropWhile_id rev_rev_ident)
  finally show ?thesis by (simp only: strip_tail_def)
qed

lemma strip_tail_last: "strip_tail r \<noteq> [] \<Longrightarrow> is_word_char (last (strip_tail r))"
  using hd_dropWhile [of "\<lambda>c. \<not> is_word_char c" "rev r"]
  by (simp add: strip_tail_def last_rev)

lemma strip_tail_Nil_iff: "strip_tail r = [] \<longleftrightarrow> (\<forall>c\<in>set r. \<not> is_word_char c)"
  by (auto simp: strip_tail_def)

lemma strip_tail_set: "set (strip_tail r) \<subseteq> set r"
  using set_dropWhileD [of _ "\<lambda>c. \<not> is_word_char c" "rev r"] by (auto simp: strip_tail_def)

lemma strip_tail_hd: "strip_tail r \<noteq> [] \<Longrightarrow> hd (strip_tail r) = hd r"
  using strip_tail_decomp [of r] by (metis hd_append2)

lemma strip_tail_rest_nonword:
  assumes "c \<in> set (drop (length (strip_tail r)) r)"
  shows "\<not> is_word_char c"
proof -
  have "drop (length (strip_tail r)) r =
      drop (length (strip_tail r)) (strip_tail r @ rev (takeWhile (\<lambda>c. \<not> is_word_char c) (rev r)))"
    using strip_tail_decomp [of r] by simp
  then have "drop (length (strip_tail r)) r = rev (takeWhile (\<lambda>c. \<not> is_word_char c) (rev r))"
    by simp
  with assms have "c \<in> set (takeWhile (\<lambda>c. \<not> is_word_char c) (rev r))" by simp
  then show ?thesis by (rule set_takeWhileD [THEN conjunct2])
qed

lemma takeWhile_drop_prefix:
  "n \<le> length (takeWhile P s) \<Longrightarrow> takeWhile P (drop n s) = drop n (takeWhile P s)"
proof (induction s arbitrary: n)
  case Nil
  then show ?case by simp
next
  case (Cons a s)
  then show ?case by (cases n) (auto split: if_splits)
qed

lemma match_word_pattern_prefix:
  assumes "match_word_pattern prev s = Some t"
  shows "t = take (length t) s"
proof -
  let ?r = "takeWhile token_char s"
  from assms have t: "t = strip_tail ?r"
    by (simp add: match_word_pattern_eq split: if_splits)
  have len: "length t \<le> length ?r"
    using strip_tail_decomp [of ?r] t by (metis length_append le_add1)
  have "?r = take (length ?r) s" by (metis takeWhile_eq_take)
  moreover have "t = take (length t) ?r"
    using strip_tail_decomp [of ?r] t by (metis append_eq_conv_conj)
  ultimately show ?thesis using len by (metis min.absorb1 take_take)
qed

lemma match_scan:
  assumes m: "match_word_pattern prev s = Some t" and inv: "scan_inv prev s"
  shows "good_token t \<and> scan_inv (Some (last t)) (drop (length t) s)"
proof -
  let ?r = "takeWhile token_char s"
  from m have b: "at_boundary prev s" and ne: "strip_tail ?r \<noteq> []" and t: "t = strip_tail ?r"
    by (auto simp: match_word_pattern_eq split: if_splits)
  from ne obtain c where c: "c \<in> set ?r" "is_word_char c"
    by (auto simp: strip_tail_Nil_iff)
  with inv have nw: "\<not> is_w prev" by (auto simp: scan_inv_def list_all_iff split: if_splits)
  have "s \<noteq> []" using c by auto
  then have "is_word_char (hd s)" using b nw
    by (cases s) (auto simp: at_boundary_def next_char_def is_w_def)
  moreover have "?r \<noteq> []" using c by auto
  then have "hd ?r = hd s" by (cases s) (auto split: if_splits)
  ultimately have hd: "is_word_char (hd t)" using strip_tail_hd [OF ne] t by simp
  have last: "is_word_char (last t)" using strip_tail_last [OF ne] t by simp
  have "set t \<subseteq> set ?r" using strip_tail_set t by simp
  then have all: "\<forall>c\<in>set t. token_char c" by (auto dest: set_takeWhileD)
  have len: "length t \<le> length ?r"
    using strip_tail_decomp [of ?r] t by (metis length_append le_add1)
  have "takeWhile token_char (drop (length t) s) = drop (length t) ?r"
    by (rule takeWhile_drop_prefix [OF len])
  then have inv': "scan_inv (Some (last t)) (drop (length t) s)"
    using strip_tail_rest_nonword [of _ ?r] t by (simp add: scan_inv_def list_all_iff)
  from hd last all ne t inv' show ?thesis by (simp add: good_token_def list_all_iff)
qed

lemma no_match_scan:
  assumes m: "match_word_pattern prev (c # cs) = None" and inv: "scan_inv prev (c # cs)"
  shows "\<not> is_word_char c"
proof
  assume w: "is_word_char c"
  then have tc: "token_char c" by (rule token_char_word)
  then have mem: "c \<in> set (takeWhile token_char (c # cs))" by simp
  then have "strip_tail (takeWhile token_char (c # cs)) \<noteq> []"
    using w strip_tail_Nil_iff by blast
  with m have "\<not> at_boundary prev (c # cs)"
    by (simp add: match_word_pattern_eq del: takeWhile.simps split: if_splits)
  then have "is_w prev" using w by (simp add: at_boundary_def next_char_def is_w_def)
  with inv mem w show False by (auto simp: scan_inv_def list_all_iff)
qed

lemma findall_words_good:
  "scan_inv prev s \<Longrightarrow> \<forall>t\<in>set (findall_words prev s). good_token t"
proof (induction prev s rule: findall_words.induct)
  case (1 prev)
  then show ?case by simp
next
  case (2 prev c cs)
  show ?case
  proof (cases "match_word_pattern prev (c # cs)")
    case None
    from no_match_scan [OF None "2.prems"] have "scan_inv (Some c) cs"
      by (simp add: scan_inv_def is_w_def)
    from "2.IH"(1) [OF None this] None show ?thesis by simp
  next
    case (Some t)
    from match_scan [OF Some "2.prems"] "2.IH"(2) [OF Some] Some show ?thesis by simp
  qed
qed

lemma findall_words_subset:
  "t \<in> set (findall_words prev s) \<Longrightarrow> set t \<subseteq> set s"
proof (induction prev s rule: findall_words.induct)
  case (1 prev)
  then show ?case by simp
next
  case (2 prev c cs)
  show ?case
  proof (cases "match_word_pattern prev (c # cs)")
    case None
    with "2.prems" "2.IH"(1) [OF None] show ?thesis by auto
  next
    case (Some tok)
    have tok: "tok = take (length tok) (c # cs)"
      by (rule match_word_pattern_prefix [OF Some])
    from "2.prems" Some
    have "t = tok \<or> t \<in> set (findall_words (Some (last tok)) (drop (length tok) (c # cs)))"
      by simp
    then show ?thesis
    proof
      assume "t = tok"
      then show ?thesis using tok by (metis set_take_subset)
    next
      assume "t \<in> set (findall_words (Some (last tok)) (drop (length tok) (c # cs)))"
      from "2.IH"(2) [OF Some this] show ?thesis using set_drop_subset by fast
    qed
  qed
qed

lemma takeWhile_append_stop:
  "\<not> P x \<Longrightarrow> takeWhile P (a @ x # b) = takeWhile P a"
  by (induction a) simp_all

lemma match_word_pattern_context:
  assumes "\<not> token_char x" "a \<noteq> []"
  shows "match_word_pattern prev (a @ x # b) = match_word_pattern prev a"
proof -
  have "at_boundary prev (a @ x # b) = at_boundary prev a"
    using assms(2) by (cases a) (simp_all add: at_boundary_def next_char_def)
  then show ?thesis
    using assms(1) by (simp add: match_word_pattern_eq takeWhile_append_stop)
qed

text \<open>A character outside the class separates the scan into independent parts.\<close>

lemma findall_words_sep:
  assumes x: "\<not> token_char x"
  shows "findall_words prev (a @ x # b) = findall_words prev a @ findall_words (Some x) b"
proof (induction prev a rule: findall_words.induct)
  case (1 prev)
  have "match_word_pattern prev (x # b) = None"
    using x by (simp add: match_word_pattern_eq strip_tail_def)
  then show ?case by simp
next
  case (2 prev c cs)
  have ctx: "match_word_pattern prev ((c # cs) @ x # b) = match_word_pattern prev (c # cs)"
    by (rule match_word_pattern_context [OF x]) simp
  show ?case
  proof (cases "match_word_pattern prev (c # cs)")
    case None
    with ctx have "match_word_pattern prev (c # cs @ x # b) = None" by simp
    then have "findall_words prev ((c # cs) @ x # b) = findall_words (Some c) (cs @ x # b)"
      by simp
    also have "\<dots> = findall_words (Some c) cs @ findall_words (Some x) b"
      by (rule "2.IH"(1) [OF None])
    also have "findall_words (Some c) cs = findall_words prev (c # cs)"
      using None by simp
    finally show ?thesis .
  next
    case (Some tok)
    from match_word_pattern_Some_length [OF Some] have len: "length tok \<le> length (c # cs)"
      by simp
    from ctx Some have "match_word_pattern prev (c # cs @ x # b) = Some tok" by simp
    then have "findall_words prev ((c # cs) @ x # b) =
        tok # findall_words (Some (last tok)) (drop (length tok) ((c # cs) @ x # b))"
      by simp
    also have "drop (length tok) ((c # cs) @ x # b) = drop (length tok) (c # cs) @ x # b"
      using len by (simp only: drop_append) simp
    also have "findall_words (Some (last tok)) (drop (length tok) (c # cs) @ x # b) =
        findall_words (Some (last tok)) (drop (length tok) (c # cs)) @ findall_words (Some x) b"
      by (rule "2.IH"(2) [OF Some])
    also have "tok # (findall_words (Some (last tok)) (drop (length tok) (c # cs)) @ findall_words (Some x) b)
        = findall_words prev (c # cs) @ findall_words (Some x) b"
      using Some by simp
    finally show ?thesis .
  qed
qed

lemma findall_words_prev_cong:
  assumes "is_w p = is_w q"
  shows "findall_words p s = findall_words q s"
proof (cases s)
  case Nil
  then show ?thesis by simp
next
  case (Cons c cs)
  from assms have "match_word_pattern p (c # cs) = match_word_pattern q (c # cs)"
    by (simp add: match_word_pattern_def at_boundary_def)
  then show ?thesis using Cons by simp
qed

lemma findall_words_join:
  "\<not> is_w p \<Longrightarrow> findall_words p (join '' '' xs) = concat (map (findall_words None) xs)"
proof (induction xs arbitrary: p rule: induct_list012)
  case 1
  then show ?case by simp
next
  case (2 t)
  then have "findall_words p t = findall_words None t"
    by (intro findall_words_prev_cong) (simp add: is_w_def)
  then show ?case by simp
next
  case (3 t v va)
  have sp: "\<not> token_char CHR '' ''"
    by (simp add: token_char_def char_eval)
  have nw: "\<not> is_w (Some CHR '' '')"
    by (simp add: is_w_def char_eval)
  have "findall_words p (join '' '' (t # v # va)) =
      findall_words p t @ findall_words (Some CHR '' '') (join '' '' (v # va))"
    using findall_words_sep [OF sp, of p t "join '' '' (v # va)"] by simp
  also have "findall_words p t = findall_words None t"
    using "3.prems" by (intro findall_words_prev_cong) (simp add: is_w_def)
  also have "findall_words (Some CHR '' '') (join '' '' (v # va)) =
      concat (map (findall_words None) (v # va))"
    by (rule "3.IH"(2) [OF nw])
  finally show ?case by simp
qed

text \<open>Tokenizing a space-joined list tokenizes each element on its own.\<close>

lemma tokenize_detokenize: "tokenize (detokenize xs) = concat (map tokenize xs)"
proof -
  have "findall_words None (join '' '' (map lower xs)) =
      concat (map (findall_words None) (map lower xs))"
    by (rule findall_words_join) (simp add: is_w_def)
  moreover have "map (findall_words None) (map lower xs) = map tokenize xs"
    by (simp add: tokenize_def)
  ultimately show ?thesis
    by (simp only: tokenize_def detokenize_def lower_join)
qed

lemma findall_words_good_token:
  assumes "good_token t" "\<not> is_w p"
  shows "findall_words p t = [t]"
proof -
  from assms(1) obtain c cs where t: "t = c # cs" by (cases t) (auto simp: good_token_def)
  from assms(1) have all: "takeWhile token_char t = t"
    by (simp add: good_token_def list_all_iff)
  from assms(1) have "is_word_char (hd (rev t))" and "rev t \<noteq> []"
    by (simp_all add: good_token_def hd_rev)
  then have "dropWhile (\<lambda>c. \<not> is_word_char c) (rev t) = rev t"
    by (cases "rev t") simp_all
  then have st: "strip_tail t = t" by (simp add: strip_tail_def)
  have b: "at_boundary p t"
    using assms by (simp add: at_boundary_def t next_char_def is_w_def good_token_def)
  have "match_word_pattern p t = Some t"
    unfolding match_word_pattern_eq all st using b t by simp
  then show ?thesis unfolding t by simp
qed

lemma tokenize_good: "t \<in> set (tokenize text) \<Longrightarrow> good_token t"
proof -
  have inv: "scan_inv None (lower text)" by (simp add: scan_inv_def is_w_def)
  assume "t \<in> set (tokenize text)"
  with findall_words_good [OF inv] show ?thesis by (simp add: tokenize_def)
qed

lemma tokenize_lower: "t \<in> set (tokenize text) \<Longrightarrow> lower t = t"
proof -
  assume "t \<in> set (tokenize text)"
  then have "set t \<subseteq> set (lower text)"
    unfolding tokenize_def by (rule findall_words_subset)
  then have "\<forall>c\<in>set t. lower_char c = c"
    by (auto simp: lower_def lower_char_idem)
  then show ?thesis by (simp add: lower_def map_idI)
qed

lemma tokenize_token:
  assumes "t \<in> set (tokenize text)"
  shows "tokenize t = [t]"
  using findall_words_good_token [OF tokenize_good [OF assms], of None] tokenize_lower [OF assms]
  by (simp add: tokenize_def is_w_def)

section \<open>Lemmas: lemmatizer and best match\<close>


lemma prefix_loop_find:
  "prefix_loop rules word =
     (case find (\<lambda>p. startswith word p) (dict_keys rules) of
        None \<Rightarrow> word | Some p \<Rightarrow> drop (length p) word)"
  by (induction rules word rule: prefix_loop.induct) (simp_all add: dict_keys_def)

lemma suffix_loop_find:
  "suffix_loop keys word =
     (case find (\<lambda>s. endswith word s \<and> length s < length word) keys of
        None \<Rightarrow> word | Some s \<Rightarrow> slice_to_neg word (length s))"
  by (induction keys word rule: suffix_loop.induct) simp_all

lemma prefix_rules_keys: "dict_keys (prefix_rules new_lemmatizer) = prefix_table"
  by (simp add: new_lemmatizer_def dict_of_def dict_keys_def prefix_table_def)

lemma suffix_rules_keys: "dict_keys (suffix_rules new_lemmatizer) = suffix_table"
  by (simp add: new_lemmatizer_def dict_of_def dict_keys_def suffix_table_def)

lemma suffix_table_slice:
  assumes "find P suffix_table = Some s"
  shows "slice_to_neg w (length s) = take (length w - length s) w"
proof -
  from assms have "s \<in> set suffix_table" by (auto simp: find_Some_iff)
  then have "length s \<noteq> 0" by (auto simp: suffix_table_def)
  then show ?thesis by (simp add: slice_to_neg_def)
qed

lemma lemmatize_eq_spec: "lemmatize new_lemmatizer word = lemmatize_spec word"
  by (simp add: lemmatize_def lemmatize_spec_def prefix_loop_find suffix_loop_find
      prefix_rules_keys suffix_rules_keys Let_def suffix_table_slice split: option.splits)

lemma lemmatize_keys_only:
  "dict_keys rules = dict_keys (prefix_rules lz) \<Longrightarrow>
   lemmatize (lz\<lparr>prefix_rules := rules\<rparr>) word = lemmatize lz word"
  by (simp add: lemmatize_def prefix_loop_find)

lemma lemmatize_single_pass:
  "lemmatize new_lemmatizer ''nanabc'' = ''nabc'' \<and> lemmatize new_lemmatizer ''nabc'' = ''bc''"
  by (simp add: lemmatize_eq_spec lemmatize_spec_def prefix_table_def suffix_table_def
      startswith_def endswith_def)

lemma Max_insert_absorb:
  assumes "finite A" "x \<le> (y::real)"
  shows "Max (insert x (insert y A)) = Max (insert y A)"
proof -
  have "Max (insert x (insert y A)) = max x (Max (insert y A))"
    using assms(1) by (intro Max_insert) simp_all
  moreover have "y \<le> Max (insert y A)" using assms(1) by (intro Max_ge) simp_all
  ultimately show ?thesis using assms(2) by (simp add: max_def)
qed

lemma best_match_loop_snd:
  "snd (best_match_loop w (b, s) cs) = Max (insert s (similarity w ` set cs))"
proof (induction cs arbitrary: b s)
  case Nil
  then show ?case by simp
next
  case (Cons c cs)
  have fin: "finite (similarity w ` set cs)" by simp
  show ?case
  proof (cases "similarity w c > s")
    case True
    then have "Max (insert s (insert (similarity w c) (similarity w ` set cs)))
        = Max (insert (similarity w c) (similarity w ` set cs))"
      using fin by (intro Max_insert_absorb) simp_all
    with True Cons.IH [of c "similarity w c"] show ?thesis by (simp add: Let_def del: Max_insert)
  next
    case False
    then have "Max (insert (similarity w c) (insert s (similarity w ` set cs)))
        = Max (insert s (similarity w ` set cs))"
      using fin by (intro Max_insert_absorb) simp_all
    with False Cons.IH [of b s] show ?thesis
      by (simp add: Let_def insert_commute del: Max_insert)
  qed
qed

lemma best_match_loop_fst:
  "fst (best_match_loop w (b, s) cs) =
     (if s < Max (insert s (similarity w ` set cs))
      then the (find (\<lambda>c. similarity w c = Max (insert s (similarity w ` set cs))) cs) else b)"
proof (induction cs arbitrary: b s)
  case Nil
  then show ?case by simp
next
  case (Cons c cs)
  have fin: "finite (similarity w ` set cs)" by simp
  define sc where "sc = similarity w c"
  show ?case
  proof (cases "sc > s")
    case True
    define m where "m = Max (insert sc (similarity w ` set cs))"
    have M: "Max (insert s (similarity w ` set (c # cs))) = m"
      unfolding m_def sc_def using fin True
      by (simp only: list.set image_insert sc_def [symmetric]) (intro Max_insert_absorb, simp_all add: sc_def)
    have ge: "sc \<le> m"
      unfolding m_def using fin by (intro Max_ge) simp_all
    have step: "best_match_loop w (b, s) (c # cs) = best_match_loop w (c, sc) cs"
      using True by (simp add: Let_def sc_def)
    have ih: "fst (best_match_loop w (c, sc) cs) =
        (if sc < m then the (find (\<lambda>c. similarity w c = m) cs) else c)"
      unfolding m_def sc_def by (rule Cons.IH)
    have sm: "s < m" using True ge by simp
    show ?thesis
    proof (cases "sc < m")
      case True
      then have "similarity w c \<noteq> m" by (simp add: sc_def)
      then show ?thesis unfolding step M ih using True sm by simp
    next
      case False
      with ge have "similarity w c = m" by (simp add: sc_def)
      then show ?thesis unfolding step M ih using False sm by simp
    qed
  next
    case False
    define m where "m = Max (insert s (similarity w ` set cs))"
    have "Max (insert sc (insert s (similarity w ` set cs))) = m"
      unfolding m_def using fin False by (intro Max_insert_absorb) simp_all
    then have M: "Max (insert s (similarity w ` set (c # cs))) = m"
      by (simp only: list.set image_insert sc_def [symmetric] insert_commute)
    have ge: "s \<le> m"
      unfolding m_def using fin by (intro Max_ge) simp_all
    have step: "best_match_loop w (b, s) (c # cs) = best_match_loop w (b, s) cs"
      using False by (simp add: Let_def sc_def)
    have ih: "fst (best_match_loop w (b, s) cs) =
        (if s < m then the (find (\<lambda>c. similarity w c = m) cs) else b)"
      unfolding m_def by (rule Cons.IH)
    show ?thesis
    proof (cases "s < m")
      case True
      with False have "similarity w c \<noteq> m" by (simp add: sc_def)
      then show ?thesis unfolding step M ih using True by simp
    next
      case False
      then show ?thesis unfolding step M ih by simp
    qed
  qed
qed

lemma find_best_match_eq:
  "find_best_match w cs =
     (if list_ex (\<lambda>c. 0 < similarity w c) cs
      then (the (find (\<lambda>c. similarity w c = Max (similarity w ` set cs)) cs),
            Max (similarity w ` set cs))
      else ([], 0))"
proof (cases "list_ex (\<lambda>c. 0 < similarity w c) cs")
  case True
  then obtain c where c: "c \<in> set cs" "0 < similarity w c" by (auto simp: list_ex_iff)
  then have ne: "similarity w ` set cs \<noteq> {}" by auto
  define m where "m = Max (similarity w ` set cs)"
  have "similarity w c \<le> m" unfolding m_def using c by (intro Max_ge) simp_all
  with c have pos: "0 < m" by simp
  have "Max (insert 0 (similarity w ` set cs)) = max 0 m"
    unfolding m_def using ne by (intro Max_insert) simp_all
  then have M: "Max (insert 0 (similarity w ` set cs)) = m"
    using pos by (simp add: max_def)
  have "fst (find_best_match w cs) = the (find (\<lambda>c. similarity w c = m) cs)"
    unfolding find_best_match_def best_match_loop_fst M using pos by simp
  moreover have "snd (find_best_match w cs) = m"
    unfolding find_best_match_def best_match_loop_snd M ..
  ultimately show ?thesis using True by (simp add: prod_eq_iff m_def)
next
  case False
  then have all: "\<forall>c\<in>set cs. similarity w c = 0"
    using similarity_nonneg by (auto simp: list_ex_iff not_less intro: antisym)
  have M: "Max (insert 0 (similarity w ` set cs)) = 0"
  proof (cases "set cs = {}")
    case True
    then show ?thesis by simp
  next
    case False
    then obtain x xs where "cs = x # xs" by (cases cs) auto
    with all have "similarity w ` set cs = {0}" by auto
    then show ?thesis by simp
  qed
  have "fst (find_best_match w cs) = []"
    unfolding find_best_match_def best_match_loop_fst M by simp
  moreover have "snd (find_best_match w cs) = 0"
    unfolding find_best_match_def best_match_loop_snd M ..
  ultimately show ?thesis using False by (simp add: prod_eq_iff)
qed


lemma calculate_helo_hello: "calculate ''helo'' ''hello'' = 1"
  by code_simp

lemma calculate_helo_world: "calculate ''helo'' ''world'' = 4"
  by code_simp

lemma find_best_match_helo:
  "find_best_match ''helo'' [''hello'', ''world''] = (''hello'', 4 / 5)"
  by (simp add: find_best_match_def similarity_def calculate_helo_hello calculate_helo_world)

lemma find_max_Some:
  assumes "cs \<noteq> []"
  shows "find (\<lambda>c. f c = Max (f ` set cs)) cs \<noteq> None"
proof -
  have "Max (f ` set cs) \<in> f ` set cs" using assms by (intro Max_in) simp_all
  then show ?thesis by (auto simp: find_None_iff)
qed

section \<open>Lemmas: confidence and character replacement\<close>

lemma confidence_loop_sum:
  "confidence_loop t ps = t + sum_list (map pair_score ps)"
  by (induction t ps rule: confidence_loop.induct) (simp_all add: pair_score_def)

lemma pair_score_bounds: "0 \<le> pair_score p \<and> pair_score p \<le> 1"
  using similarity_nonneg similarity_le_1 by (cases p) (simp add: pair_score_def)

lemma sum_pair_score_bounds:
  "0 \<le> sum_list (map pair_score ps) \<and> sum_list (map pair_score ps) \<le> real (length ps)"
proof (induction ps)
  case Nil
  then show ?case by simp
next
  case (Cons p ps)
  with pair_score_bounds [of p] show ?case by simp
qed

lemma tokenize_abc: "tokenize ''abc'' = [''abc'']"
  by code_simp

lemma tokenize_a_b: "tokenize ''a b'' = [''a'', ''b'']"
  by code_simp

lemma confidence_eq:
  "get_normalization_confidence original normalized =
     (if original = normalized then 0
      else if length (tokenize original) \<noteq> length (tokenize normalized) then 0.5
      else if tokenize original = [] then 0
      else sum_list (map pair_score (zip (tokenize original) (tokenize normalized)))
             / real (length (tokenize original)))"
  by (simp add: get_normalization_confidence_def Let_def confidence_loop_sum)

lemma confidence_bounds:
  "0 \<le> get_normalization_confidence original normalized
   \<and> get_normalization_confidence original normalized \<le> 1"
proof -
  let ?ps = "zip (tokenize original) (tokenize normalized)"
  have "length (tokenize original) = length (tokenize normalized) \<Longrightarrow>
      sum_list (map pair_score ?ps) \<le> real (length (tokenize original))"
    using sum_pair_score_bounds [of ?ps] by simp
  moreover have "0 \<le> sum_list (map pair_score ?ps)"
    using sum_pair_score_bounds [of ?ps] by simp
  ultimately show ?thesis
    unfolding confidence_eq by (auto simp: divide_le_eq)
qed

lemma re_sub_ic_single:
  "re_sub_ic [v] base s =
     concat (map (\<lambda>c. if lower_char c = lower_char v then base else [c]) s)"
  by (induction s) (simp_all add: lower_def)

lemma dict_set_keys_lower:
  assumes "\<forall>(k, v)\<in>set d. lower k = k" "lower k' = k'"
  shows "\<forall>(k, v)\<in>set (dict_set d k' v'). lower k = k"
  using assms by (induction d k' v' rule: dict_set.induct) auto

lemma lower_idem: "lower (lower s) = lower s"
  by (simp add: lower_def lower_char_idem)

lemma variants_loop_keys_lower:
  "\<forall>(k, v)\<in>set m. lower k = k \<Longrightarrow>
   \<forall>(k, v)\<in>set (variants_loop m letter variants). lower k = k"
proof (induction m letter variants rule: variants_loop.induct)
  case (1 variant_map letter)
  then show ?case by simp
next
  case (2 variant_map letter variant variants)
  have "\<forall>(k, v)\<in>set (dict_set variant_map (lower variant) (lower letter)). lower k = k"
    by (rule dict_set_keys_lower [OF "2.prems"]) (rule lower_idem)
  then show ?case using "2.IH" by simp
qed

lemma letters_loop_keys_lower:
  "\<forall>(k, v)\<in>set m. lower k = k \<Longrightarrow> \<forall>(k, v)\<in>set (letters_loop m lv). lower k = k"
proof (induction m lv rule: letters_loop.induct)
  case (1 variant_map)
  then show ?case by simp
next
  case (2 variant_map letter variants rest)
  from variants_loop_keys_lower [OF "2.prems"] "2.IH" show ?case by simp
qed

lemma create_variant_to_letter_lower:
  "(k, v) \<in> set (create_variant_to_letter lv) \<Longrightarrow> lower k = k"
  using letters_loop_keys_lower [of "[]" lv] by (auto simp: create_variant_to_letter_def)

lemma variant_loop_foldl:
  "\<forall>(k, v)\<in>set vs. lower k = k \<Longrightarrow>
   variant_loop vs word = foldl (\<lambda>result vb. replace_variant_spec vb result) word vs"
proof (induction vs word rule: variant_loop.induct)
  case (1 result)
  then show ?case by simp
next
  case (2 variant base rest result)
  from "2.prems" have low: "lower variant = variant" and rest: "\<forall>(k, v)\<in>set rest. lower k = k"
    by auto
  have one: "length variant = 1 \<Longrightarrow> re_sub_ic variant base result =
      concat (map (\<lambda>c. if lower_char c = lower_char (hd variant) then base else [c]) result)"
  proof -
    assume "length variant = 1"
    then obtain v where "variant = [v]" by (cases variant) auto
    then show ?thesis by (simp add: re_sub_ic_single)
  qed
  show ?case
    using "2.IH" rest low one by (simp add: replace_variant_spec_def)
qed

lemma common_loop_foldl:
  "common_loop cr word = foldl (\<lambda>result (old, new). re_sub_ic old new result) word cr"
  by (induction cr word rule: common_loop.induct) simp_all

lemma acr_eq_spec:
  "apply_character_replacements (new_lexicon_manager j2n cr lv ws) word
     = apply_character_replacements_spec (new_lexicon_manager j2n cr lv ws) word"
proof -
  have "\<forall>(k, v)\<in>set (sorted_variants (create_variant_to_letter lv)). lower k = k"
    using create_variant_to_letter_lower by (auto simp: sorted_variants_def)
  then show ?thesis
    by (simp add: apply_character_replacements_def apply_character_replacements_spec_def
        new_lexicon_manager_def variant_loop_foldl common_loop_foldl)
qed

lemma sorted_variants_order:
  "sorted_wrt (\<lambda>a b. length (fst b) \<le> length (fst a)) (sorted_variants v2l)"
proof -
  have "sorted (map (\<lambda>(variant, base). - int (length variant)) (sorted_variants v2l))"
    unfolding sorted_variants_def by (rule sorted_sort_key)
  then show ?thesis
    by (simp add: sorted_map sorted_wrt_iff_nth_less case_prod_beta)
qed

lemma sorted_variants_set:
  "set (sorted_variants v2l) = set v2l \<and> length (sorted_variants v2l) = length v2l"
  by (simp add: sorted_variants_def)

lemma acr_example:
  "apply_character_replacements (new_lexicon_manager [] [] [(''e'', [''3''])] {}) ''h3llo'' = ''hello''"
  by code_simp

section \<open>Lemmas: word resolution and punctuation\<close>

lemma find_best_match_Nil: "find_best_match word [] = ([], 0)"
  by (simp add: find_best_match_def)

lemma fuzzy_step_rule:
  "fuzzy_step lm (get_all_jejemon_words lm) word = fuzzy_rule lm word"
  by (simp add: fuzzy_step_def fuzzy_rule_def find_best_match_Nil)

lemma replacement_step_lookup:
  assumes "direct_mapping (lexicon_manager nz) word = None"
  shows "replacement_step nz word =
     (if should_apply_character_replacement nz word
      then direct_mapping (lexicon_manager nz)
             (apply_character_replacements (lexicon_manager nz) word)
      else None)"
  using assms by (auto simp: replacement_step_def Let_def)

lemma normalize_word_steps:
  "first_success (resolution_steps nz word) = Some (normalize_word nz word)"
proof (cases "is_in_words_txt (lexicon_manager nz) word")
  case True
  then show ?thesis by (simp add: resolution_steps_def normalize_word_def)
next
  case False
  show ?thesis
  proof (cases "direct_mapping (lexicon_manager nz) word")
    case (Some v)
    with False show ?thesis by (simp add: resolution_steps_def normalize_word_def)
  next
    case None
    show ?thesis
      using False None
      by (simp add: resolution_steps_def normalize_word_def replacement_step_lookup [OF None]
          fuzzy_step_rule lemma_step_def Let_def split: option.splits)
  qed
qed

lemma str_replace_absent:
  "\<not> contains s old \<Longrightarrow> str_replace old new s = s"
proof (induction old new s rule: str_replace.induct)
  case (1 old new)
  then show ?case by simp
next
  case (2 old new c cs)
  then show ?case by (cases "old = []") auto
qed

lemma replace_loop_foldl:
  "replace_loop ps s = foldl (\<lambda>s (punct, repl). str_replace punct repl s) s ps"
  by (induction ps s rule: replace_loop.induct) (simp_all add: str_replace_absent)

lemma str_replace_drop_char:
  "filter (\<lambda>c. c \<noteq> a) (str_replace (a # x) x s) = filter (\<lambda>c. c \<noteq> a) s"
proof (induction "a # x" x s rule: str_replace.induct)
  case (1 new)
  then show ?case by simp
next
  case (2 new c cs)
  show ?case
  proof (cases "take (length (a # new)) (c # cs) = a # new")
    case True
    then have cs: "c # cs = (a # new) @ drop (length (a # new)) (c # cs)"
      by (metis append_take_drop_id)
    have "filter (\<lambda>c. c \<noteq> a) (c # cs) =
        filter (\<lambda>c. c \<noteq> a) ((a # new) @ drop (length (a # new)) (c # cs))"
      using cs by simp
    also have "\<dots> = filter (\<lambda>c. c \<noteq> a) new
        @ filter (\<lambda>c. c \<noteq> a) (drop (length (a # new)) (c # cs))"
      by simp
    finally show ?thesis using True "2.hyps"(2) by simp
  next
    case False
    then show ?thesis using "2.hyps"(3) by simp
  qed
qed

lemma str_replace_single_empty:
  "str_replace [a] [] s = filter (\<lambda>c. c \<noteq> a) s"
  by (induction s) auto

lemma foldl_drop_char:
  assumes "\<forall>(p, r)\<in>set ps. p = a # r"
  shows "filter (\<lambda>c. c \<noteq> a) (foldl (\<lambda>s (punct, repl). str_replace punct repl s) s ps)
     = filter (\<lambda>c. c \<noteq> a) s"
  using assms
proof (induction ps arbitrary: s)
  case Nil
  then show ?case by simp
next
  case (Cons pr ps)
  obtain p r where pr: "pr = (p, r)" by (cases pr)
  with Cons.prems have p: "p = a # r" by simp
  from Cons.prems have "\<forall>(p, r)\<in>set ps. p = a # r" by simp
  from Cons.IH [OF this] show ?case
    by (simp add: pr p str_replace_drop_char)
qed

lemma word_patterns_unquote: "replace_loop word_patterns word = unquote word"
proof -
  let ?pre = "[([apostrophe, CHR ''s''], ''s''), ([apostrophe, CHR ''t''], ''t''),
      ([apostrophe, CHR ''r'', CHR ''e''], ''re''), ([apostrophe, CHR ''v'', CHR ''e''], ''ve''),
      ([apostrophe, CHR ''l'', CHR ''l''], ''ll''), ([apostrophe, CHR ''d''], ''d''),
      ([apostrophe, CHR ''m''], ''m''), ([apostrophe, CHR ''r'', CHR ''e''], ''re'')]"
  let ?f = "\<lambda>s (punct, repl). str_replace punct repl s"
  have split: "word_patterns = ?pre @ [([apostrophe], []), ([backtick], []), ([apostrophe], [])]"
    by (simp add: word_patterns_def)
  have pre: "filter (\<lambda>c. c \<noteq> apostrophe) (foldl ?f word ?pre) = filter (\<lambda>c. c \<noteq> apostrophe) word"
    by (rule foldl_drop_char) simp
  have "replace_loop word_patterns word =
      str_replace [apostrophe] [] (str_replace [backtick] []
        (str_replace [apostrophe] [] (foldl ?f word ?pre)))"
    unfolding replace_loop_foldl split foldl_append by simp
  also have "\<dots> = filter (\<lambda>c. c \<noteq> apostrophe) (filter (\<lambda>c. c \<noteq> backtick)
        (filter (\<lambda>c. c \<noteq> apostrophe) word))"
    unfolding str_replace_single_empty pre ..
  also have "\<dots> = unquote word"
    by (induction word) (simp_all add: unquote_def)
  finally show ?thesis .
qed

lemma strip_markers_unquote: "strip_markers word = unquote word"
proof -
  let ?pre = "[([apostrophe, CHR ''s''], ''s''), ([apostrophe, CHR ''t''], ''t''),
      ([apostrophe, CHR ''r'', CHR ''e''], ''re''), ([apostrophe, CHR ''v'', CHR ''e''], ''ve''),
      ([apostrophe, CHR ''l'', CHR ''l''], ''ll''), ([apostrophe, CHR ''d''], ''d''),
      ([apostrophe, CHR ''m''], ''m'')]"
  let ?f = "\<lambda>s (punct, repl). str_replace punct repl s"
  have split: "contraction_markers = ?pre @ [([apostrophe], []), ([backtick], [])]"
    by (simp add: contraction_markers_def)
  have pre: "filter (\<lambda>c. c \<noteq> apostrophe) (foldl ?f word ?pre) = filter (\<lambda>c. c \<noteq> apostrophe) word"
    by (rule foldl_drop_char) simp
  have "strip_markers word =
      str_replace [backtick] [] (str_replace [apostrophe] [] (foldl ?f word ?pre))"
    unfolding strip_markers_def split foldl_append by simp
  also have "\<dots> = unquote word"
    unfolding str_replace_single_empty pre unquote_def ..
  finally show ?thesis .
qed

lemma contains_single: "contains word [p] = (p \<in> set word)"
  by (induction word) auto

lemma evaluate_punctuation_guarded:
  "evaluate_punctuation_value nz word =
     (if list_ex (\<lambda>p. p \<in> set word) meaningful_punctuation
      then evaluate_punctuation_spec nz word else (word, False))"
  by (auto simp: evaluate_punctuation_value_def evaluate_punctuation_spec_def Let_def
      contains_single word_patterns_unquote strip_markers_unquote)

lemma juz_code: "evaluate_punctuation_value nz_juz ''juz'' = (''juz'', False)"
  by code_simp

lemma juz_spec: "evaluate_punctuation_spec nz_juz ''juz'' = (''just'', True)"
  by code_simp

section \<open>Lemmas: skip policy and text resolution\<close>

lemma matches_any_ex: "matches_any ps word = list_ex (\<lambda>p. re_match p word) ps"
  by (induction ps word rule: matches_any.induct) simp_all

lemma should_apply_iff:
  "should_apply_character_replacement nz word =
     (\<not> (is_in_words_txt (lexicon_manager nz) word
         \<or> truthy (get_normal_word (lexicon_manager nz) word)
         \<or> (isdigit word \<and> 3 \<le> length word)
         \<or> list_ex (\<lambda>p. re_match p word) number_patterns
         \<or> list_ex (\<lambda>p. re_match p word) alphanumeric_patterns))"
  by (simp add: should_apply_character_replacement_def matches_any_ex)

lemma letter_facts:
  "is_ascii_letter c \<Longrightarrow>
     \<not> is_ascii_digit c \<and> c \<noteq> CHR 0x0A \<and> c \<noteq> CHR ''-'' \<and> c \<noteq> CHR ''/''
     \<and> c \<noteq> CHR '':'' \<and> c \<noteq> CHR ''.'' \<and> c \<noteq> CHR '','' \<and> c \<noteq> CHR ''%''
     \<and> c \<noteq> CHR ''#'' \<and> c \<noteq> CHR ''$''"
  by (auto simp: is_ascii_digit_def is_ascii_letter_def is_ascii_upper_def is_ascii_lower_def)

lemmas rx_defs = rx_opt_def rx_plus_def rx_rep_range_def rx_rep_min_def rx_lit_def
  rx_one_of_def rx_digit_def rx_letter_def rx_letter_or_digit_def eval_nat_numeral

lemma digit_char_facts:
  "is_digit_char c \<Longrightarrow>
     \<not> is_ascii_letter c \<and> c \<noteq> CHR 0x0A \<and> c \<noteq> CHR ''-'' \<and> c \<noteq> CHR ''/''
     \<and> c \<noteq> CHR '':'' \<and> c \<noteq> CHR ''.'' \<and> c \<noteq> CHR '','' \<and> c \<noteq> CHR ''%''
     \<and> c \<noteq> CHR ''#'' \<and> c \<noteq> CHR ''$''"
  by (auto simp: is_digit_char_def is_ascii_digit_def is_ascii_letter_def is_ascii_upper_def
      is_ascii_lower_def)

lemma digits1_number:
  assumes "is_digit_char a"
  shows "\<not> matches_any number_patterns [a]"
  using digit_char_facts [OF assms]
  by (cases "is_ascii_digit a") (simp_all add: number_patterns_def re_match_def rx_defs)

lemma digits1_alnum:
  assumes "is_digit_char a"
  shows "\<not> matches_any alphanumeric_patterns [a]"
  using digit_char_facts [OF assms]
  by (cases "is_ascii_digit a") (simp_all add: alphanumeric_patterns_def re_match_def rx_defs)

lemma digits2_number:
  assumes "is_digit_char a" "is_digit_char b"
  shows "\<not> matches_any number_patterns [a, b]"
  using digit_char_facts [OF assms(1)] digit_char_facts [OF assms(2)]
  by (cases "is_ascii_digit a"; cases "is_ascii_digit b")
    (simp_all add: number_patterns_def re_match_def rx_defs)

lemma digits2_alnum:
  assumes "is_digit_char a" "is_digit_char b"
  shows "\<not> matches_any alphanumeric_patterns [a, b]"
  using digit_char_facts [OF assms(1)] digit_char_facts [OF assms(2)]
  by (cases "is_ascii_digit a"; cases "is_ascii_digit b")
    (simp_all add: alphanumeric_patterns_def re_match_def rx_defs)

lemma alnum_facts:
  "is_ascii_letter c \<or> is_ascii_digit c \<Longrightarrow>
     c \<noteq> CHR 0x0A \<and> c \<noteq> CHR ''-'' \<and> c \<noteq> CHR ''/''
     \<and> c \<noteq> CHR '':'' \<and> c \<noteq> CHR ''.'' \<and> c \<noteq> CHR '','' \<and> c \<noteq> CHR ''%''
     \<and> c \<noteq> CHR ''#'' \<and> c \<noteq> CHR ''$'' \<and> is_ascii_digit c = (\<not> is_ascii_letter c)"
  by (auto simp: is_ascii_digit_def is_ascii_letter_def is_ascii_upper_def is_ascii_lower_def)

lemma short_mixed_cases:
  assumes "short_mixed w"
  obtains a where "w = [a]" | a b where "w = [a, b]" | a b c where "w = [a, b, c]"
proof -
  from assms have "length w \<le> 3" "w \<noteq> []" by (auto simp: short_mixed_def)
  then show ?thesis
    using that by (cases w; cases "tl w"; cases "tl (tl w)"; cases "tl (tl (tl w))") auto
qed

lemma short_mixed_number:
  assumes "short_mixed w"
  shows "\<not> matches_any number_patterns w"
proof (rule short_mixed_cases [OF assms])
  fix a assume w: "w = [a]"
  with assms have "is_ascii_letter a" by (simp add: short_mixed_def)
  from letter_facts [OF this] this show ?thesis
    by (simp add: w number_patterns_def re_match_def rx_defs)
next
  fix a b assume w: "w = [a, b]"
  with assms have "is_ascii_letter a \<or> is_ascii_digit a" "is_ascii_letter b \<or> is_ascii_digit b"
    "is_ascii_letter a \<or> is_ascii_letter b"
    by (simp_all add: short_mixed_def)
  with alnum_facts [of a] alnum_facts [of b] show ?thesis
    by (auto simp add: w number_patterns_def re_match_def rx_defs)
next
  fix a b c assume w: "w = [a, b, c]"
  with assms have "is_ascii_letter a \<or> is_ascii_digit a" "is_ascii_letter b \<or> is_ascii_digit b"
    "is_ascii_letter c \<or> is_ascii_digit c"
    "is_ascii_letter a \<or> is_ascii_letter b \<or> is_ascii_letter c"
    by (simp_all add: short_mixed_def)
  with alnum_facts [of a] alnum_facts [of b] alnum_facts [of c] show ?thesis
    by (auto simp add: w number_patterns_def re_match_def rx_defs)
qed

lemma short_mixed_alnum:
  assumes "short_mixed w"
  shows "\<not> matches_any alphanumeric_patterns w"
proof (rule short_mixed_cases [OF assms])
  fix a assume w: "w = [a]"
  with assms have "is_ascii_letter a" by (simp add: short_mixed_def)
  from letter_facts [OF this] this show ?thesis
    by (simp add: w alphanumeric_patterns_def re_match_def rx_defs)
next
  fix a b assume w: "w = [a, b]"
  with assms have "is_ascii_letter a \<or> is_ascii_digit a" "is_ascii_letter b \<or> is_ascii_digit b"
    by (simp_all add: short_mixed_def)
  with alnum_facts [of a] alnum_facts [of b] show ?thesis
    by (auto simp add: w alphanumeric_patterns_def re_match_def rx_defs)
next
  fix a b c assume w: "w = [a, b, c]"
  with assms have "is_ascii_letter a \<or> is_ascii_digit a" "is_ascii_letter b \<or> is_ascii_digit b"
    "is_ascii_letter c \<or> is_ascii_digit c"
    by (simp_all add: short_mixed_def)
  with alnum_facts [of a] alnum_facts [of b] alnum_facts [of c] show ?thesis
    by (auto simp add: w alphanumeric_patterns_def re_match_def rx_defs)
qed

lemma short_mixed_not_isdigit: "short_mixed w \<Longrightarrow> \<not> isdigit w"
  using digit_char_facts by (auto simp: short_mixed_def isdigit_def list_all_iff list_ex_iff)

lemma short_digits_cases:
  assumes "isdigit w" "length w \<le> 2"
  shows "\<not> matches_any number_patterns w \<and> \<not> matches_any alphanumeric_patterns w"
proof -
  from assms consider a where "w = [a]" "is_digit_char a"
    | a b where "w = [a, b]" "is_digit_char a" "is_digit_char b"
    by (cases w; cases "tl w"; cases "tl (tl w)") (auto simp: isdigit_def)
  then show ?thesis
    by cases (simp_all add: digits1_number digits1_alnum digits2_number digits2_alnum)
qed

lemma examples_22o:
  "short_mixed ''22o'' \<and> short_mixed ''e2'' \<and> short_mixed ''b4''"
  by code_simp

lemma normalize_text_keys:
  "dict_keys (normalize_text nz text) =
     [''original'', ''punctuation_evaluated'', ''character_replaced'', ''tokenized'',
      ''normalized'']"
  by (simp add: normalize_text_def Let_def dict_of_def dict_keys_def)

lemma normalize_text_fields:
  "dict_get (normalize_text nz text) ''original'' = Some text
   \<and> dict_get (normalize_text nz text) ''punctuation_evaluated''
       = Some (apply_punctuation_evaluation_to_text nz text)
   \<and> dict_get (normalize_text nz text) ''character_replaced''
       = Some (apply_character_replacements_to_text nz
           (apply_punctuation_evaluation_to_text nz text))
   \<and> dict_get (normalize_text nz text) ''tokenized'' = Some (join '' '' (staged_tokens nz text))
   \<and> dict_get (normalize_text nz text) ''normalized''
       = Some (detokenize (map (normalize_word nz) (staged_tokens nz text)))"
  by (simp add: normalize_text_def Let_def dict_of_def dict_get_def staged_tokens_def)

lemma direct_mapping_Some:
  "direct_mapping lm w = Some v \<Longrightarrow> v \<in> snd ` set (jejemon_to_normal lm)"
  by (auto simp: direct_mapping_def Let_def get_normal_word_def dict_get_def
      split: if_splits dest!: map_of_SomeD intro: rev_image_eqI)

lemma fuzzy_step_Some:
  "fuzzy_step lm ws w = Some v \<Longrightarrow> v \<in> snd ` set (jejemon_to_normal lm)"
  by (auto simp: fuzzy_step_def Let_def split: if_splits prod.splits dest: direct_mapping_Some)

lemma replacement_step_Some:
  "replacement_step nz w = Some v \<Longrightarrow> v \<in> snd ` set (jejemon_to_normal (lexicon_manager nz))"
  by (auto simp: replacement_step_def Let_def split: if_splits dest: direct_mapping_Some)

lemma lemma_step_Some:
  "lemma_step nz ws w = Some v \<Longrightarrow> v \<in> snd ` set (jejemon_to_normal (lexicon_manager nz))"
  by (auto simp: lemma_step_def Let_def split: if_splits option.splits
      dest: direct_mapping_Some fuzzy_step_Some)

lemma normalize_word_cases:
  "normalize_word nz w = w
   \<or> normalize_word nz w \<in> snd ` set (jejemon_to_normal (lexicon_manager nz))"
  by (auto simp: normalize_word_def Let_def split: option.splits
      dest: direct_mapping_Some fuzzy_step_Some replacement_step_Some lemma_step_Some)

lemma tokenize_join_tokens:
  "tokenize (join '' '' (tokenize text)) = tokenize text"
proof -
  have "concat (map tokenize (tokenize text)) = concat (map (\<lambda>t. [t]) (tokenize text))"
    by (rule arg_cong [where f = concat]) (simp add: tokenize_token)
  then show ?thesis using tokenize_detokenize [of "tokenize text"] by (simp add: detokenize_def)
qed

lemma length_concat_singletons:
  "\<forall>x\<in>set xs. length (f x) = 1 \<Longrightarrow> length (concat (map f xs)) = length xs"
  by (induction xs) simp_all

lemma normalized_token_count:
  assumes "list_all (\<lambda>(k, v). length (tokenize v) = 1) (jejemon_to_normal (lexicon_manager nz))"
  shows "length (tokenize (detokenize (map (normalize_word nz) (tokenize text))))
     = length (tokenize text)"
proof -
  have one: "length (tokenize (normalize_word nz t)) = 1" if "t \<in> set (tokenize text)" for t
  proof -
    from normalize_word_cases [of nz t] show ?thesis
    proof
      assume "normalize_word nz t = t"
      then show ?thesis using tokenize_token [OF that] by simp
    next
      assume "normalize_word nz t \<in> snd ` set (jejemon_to_normal (lexicon_manager nz))"
      with assms show ?thesis by (auto simp: list_all_iff)
    qed
  qed
  have "length (concat (map (\<lambda>t. tokenize (normalize_word nz t)) (tokenize text)))
      = length (tokenize text)"
    by (rule length_concat_singletons) (simp add: one)
  then show ?thesis by (simp add: tokenize_detokenize comp_def)
qed

lemma u2_fields:
  "dict_get (normalize_text nz_u2 ''u2'') ''tokenized'' = Some ''u2''
   \<and> dict_get (normalize_text nz_u2 ''u2'') ''normalized'' = Some ''you too''"
  by code_simp

lemma u2_counts: "length (tokenize ''u2'') = 1 \<and> length (tokenize ''you too'') = 2"
  by code_simp

lemma juz_values:
  "list_all (\<lambda>(k, v). length (tokenize v) = 1) (jejemon_to_normal (lexicon_manager nz_juz))"
  by code_simp


lemma c4_hyps:
  "isdigit ''22'' \<and> length ''22'' \<le> 2 \<and> \<not> is_in_words_txt (lexicon_manager nz_juz) ''22''
   \<and> \<not> truthy (get_normal_word (lexicon_manager nz_juz) ''22'')
   \<and> short_mixed ''e2'' \<and> \<not> is_in_words_txt (lexicon_manager nz_juz) ''e2''
   \<and> \<not> truthy (get_normal_word (lexicon_manager nz_juz) ''e2'')"
  by code_simp

lemma pattern_examples:
  "matches_any number_patterns ''1999'' \<and> matches_any number_patterns ''12/31/2021''
   \<and> matches_any number_patterns ''3:45pm'' \<and> matches_any number_patterns ''3.14''
   \<and> matches_any number_patterns ''1,000'' \<and> matches_any number_patterns ''50%''
   \<and> matches_any number_patterns ''#12'' \<and> matches_any number_patterns ''$15.50''
   \<and> matches_any alphanumeric_patterns ''abc123'' \<and> matches_any alphanumeric_patterns ''123ABC''
   \<and> matches_any alphanumeric_patterns ''ABCDE-123'' \<and> matches_any alphanumeric_patterns ''abc123de''
   \<and> \<not> matches_any number_patterns ''3:45xm'' \<and> \<not> matches_any alphanumeric_patterns ''ab1''
   \<and> \<not> matches_any number_patterns ''12345'' \<and> \<not> matches_any number_patterns ''$15.5''"
  by code_simp

text \<open>The whole pipeline on an example.\<close>

lemma normalize_text_example:
  "normalize_text nz_juz ''JuZ h3llo!! 2021'' =
     [(''original'', ''JuZ h3llo!! 2021''),
      (''punctuation_evaluated'', ''JuZ h3llo 2021''),
      (''character_replaced'', ''JuZ h3llo 2021''),
      (''tokenized'', ''juz h3llo 2021''),
      (''normalized'', ''just h3llo 2021'')]"
  by code_simp

section \<open>The claims\<close>

text \<open>
  Claim C8. For all strings \<open>a\<close> and \<open>b\<close>: the distance is symmetric and the distance of a
  string to itself is 0; the similarity is \<open>1 - distance / max (|a|, |b|)\<close> whenever the
  longer string is not empty, the similarity of two empty strings is 1, and the similarity
  always lies between 0 and 1.
\<close>

theorem calculate_similarity_spec:
  "calculate a b = calculate b a \<and> calculate a a = 0
   \<and> (0 < max (length a) (length b) \<longrightarrow>
        similarity a b = 1 - real (calculate a b) / real (max (length a) (length b)))
   \<and> similarity [] [] = 1 \<and> 0 \<le> similarity a b \<and> similarity a b \<le> 1"
proof -
  have sym: "calculate a b = calculate b a"
    by (simp add: calculate_lev lev_sym)
  have refl: "calculate a a = 0"
    by (simp add: calculate_lev)
  have sim: "0 < max (length a) (length b) \<longrightarrow>
      similarity a b = 1 - real (calculate a b) / real (max (length a) (length b))"
    by (auto simp: similarity_def Let_def)
  have empty: "similarity [] [] = 1"
    by (simp add: similarity_def)
  show ?thesis
    using sym refl sim empty similarity_nonneg [of a b] similarity_le_1 [of a b] by simp
qed

theorem calculate_similarity_spec_witness:
  "0 < max (length ''helo'') (length ''hello'')
   \<and> calculate ''helo'' ''hello'' = calculate ''hello'' ''helo''
   \<and> similarity ''helo'' ''hello'' = 1 - real (calculate ''helo'' ''hello'') / 5"
  using calculate_similarity_spec [of "''helo''" "''hello''"] by simp

text \<open>
  Claim C10. Tokenization is stable under detokenization: joining the tokens of a text with
  single spaces and tokenizing again gives the same token list. (Every token begins and
  ends with a word character, holds class characters only and is in lower case, so it is
  tokenized to itself.)
\<close>

theorem tokenize_detokenize_tokenize:
  "tokenize (detokenize (tokenize text)) = tokenize text"
proof -
  have "concat (map tokenize (tokenize text)) = concat (map (\<lambda>t. [t]) (tokenize text))"
    by (rule arg_cong [where f = concat]) (simp add: tokenize_token)
  then show ?thesis by (simp add: tokenize_detokenize)
qed

text \<open>
  Claim C7. \<open>lemmatize\<close> is one pass: it strips the first prefix of the ordered prefix
  table that the word starts with, then the first suffix of the ordered suffix table that
  the candidate ends with and that leaves at least one character of it, and returns the
  original word when fewer than 2 characters are left. (A suffix that is the whole
  candidate does not count as matching, and the scan goes on to the next suffix, as the
  loop does: \<open>naging\<close> loses \<open>nag\<close>, then \<open>ng\<close>, and is returned unchanged.) The
  alternative spellings attached to a prefix key never affect the result: any table with
  the same keys gives the same result. The pass is not repeated to a fixed point:
  lemmatizing \<open>nanabc\<close> gives \<open>nabc\<close>, which is itself lemmatized to \<open>bc\<close>.
\<close>

theorem lemmatize_single_pass_spec:
  "lemmatize new_lemmatizer word = lemmatize_spec word
   \<and> (dict_keys rules = dict_keys (prefix_rules lz) \<longrightarrow>
        lemmatize (lz\<lparr>prefix_rules := rules\<rparr>) word = lemmatize lz word)
   \<and> lemmatize new_lemmatizer (lemmatize new_lemmatizer ''nanabc'')
        \<noteq> lemmatize new_lemmatizer ''nanabc''"
  using lemmatize_eq_spec [of word] lemmatize_keys_only [of rules lz word] lemmatize_single_pass
  by simp

theorem lemmatize_single_pass_spec_witness:
  "dict_keys [(''nag'', [''x'']), (''naka'', []), (''nai'', []), (''napa'', []), (''naging'', []),
       (''naki'', []), (''nang'', []), (''na'', [])] = dict_keys (prefix_rules new_lemmatizer)
   \<and> lemmatize (new_lemmatizer\<lparr>prefix_rules :=
        [(''nag'', [''x'']), (''naka'', []), (''nai'', []), (''napa'', []), (''naging'', []),
         (''naki'', []), (''nang'', []), (''na'', [])]\<rparr>) ''nagluto''
      = lemmatize new_lemmatizer ''nagluto''
   \<and> lemmatize new_lemmatizer ''nagluto'' = lemmatize_spec ''nagluto''"
proof -
  have k: "dict_keys [(''nag'', [''x'']), (''naka'', []), (''nai'', []), (''napa'', []),
       (''naging'', []), (''naki'', []), (''nang'', []), (''na'', [])]
      = dict_keys (prefix_rules new_lemmatizer)"
    unfolding prefix_rules_keys by (simp add: prefix_table_def dict_keys_def)
  from k lemmatize_single_pass_spec [of "''nagluto''"
      "[(''nag'', [''x'']), (''naka'', []), (''nai'', []), (''napa'', []),
        (''naging'', []), (''naki'', []), (''nang'', []), (''na'', [])]" new_lemmatizer]
  show ?thesis by blast
qed

text \<open>
  Claim C9. \<open>find_best_match\<close> scans the candidates in order and replaces its best only
  on a strictly greater score, so that it returns the earliest candidate that attains the
  greatest similarity, together with that score; when the list is empty or no candidate
  scores above 0, it returns the empty string with score 0. For \<open>helo\<close> and the candidates
  \<open>hello\<close>, \<open>world\<close> it returns \<open>hello\<close> with a score above 0.6.
\<close>

theorem find_best_match_spec:
  "(if list_ex (\<lambda>c. 0 < similarity word c) candidates
    then snd (find_best_match word candidates) = Max (similarity word ` set candidates)
       \<and> find (\<lambda>c. similarity word c = Max (similarity word ` set candidates)) candidates
           = Some (fst (find_best_match word candidates))
    else find_best_match word candidates = ([], 0))
   \<and> fst (find_best_match ''helo'' [''hello'', ''world'']) = ''hello''
   \<and> 0.6 < snd (find_best_match ''helo'' [''hello'', ''world''])"
proof -
  have general: "if list_ex (\<lambda>c. 0 < similarity word c) candidates
    then snd (find_best_match word candidates) = Max (similarity word ` set candidates)
       \<and> find (\<lambda>c. similarity word c = Max (similarity word ` set candidates)) candidates
           = Some (fst (find_best_match word candidates))
    else find_best_match word candidates = ([], 0)"
  proof (cases "list_ex (\<lambda>c. 0 < similarity word c) candidates")
    case True
    then have "candidates \<noteq> []" by auto
    from find_max_Some [OF this, of "similarity word"] True show ?thesis
      by (auto simp: find_best_match_eq)
  next
    case False
    then show ?thesis by (simp add: find_best_match_eq)
  qed
  then show ?thesis by (simp add: find_best_match_helo)
qed

text \<open>
  Claim C6. \<open>confidence\<close> is 0 when the two strings are identical; otherwise 0.5 when
  they tokenize to different numbers of tokens; otherwise 0 when there are no tokens;
  otherwise the mean over the aligned token pairs of 1 for an unchanged token and of the
  similarity for a changed one. The result lies between 0 and 1; for \<open>abc\<close> and \<open>abc\<close>
  it is 0, for \<open>a b\<close> and \<open>abc\<close> it is 0.5.
\<close>

theorem get_normalization_confidence_spec:
  "get_normalization_confidence original normalized =
     (if original = normalized then 0
      else if length (tokenize original) \<noteq> length (tokenize normalized) then 0.5
      else if tokenize original = [] then 0
      else sum_list (map pair_score (zip (tokenize original) (tokenize normalized)))
             / real (length (tokenize original)))
   \<and> 0 \<le> get_normalization_confidence original normalized
   \<and> get_normalization_confidence original normalized \<le> 1
   \<and> get_normalization_confidence ''abc'' ''abc'' = 0
   \<and> get_normalization_confidence ''a b'' ''abc'' = 0.5"
proof -
  have "get_normalization_confidence ''abc'' ''abc'' = 0"
    by (simp add: get_normalization_confidence_def)
  moreover have "get_normalization_confidence ''a b'' ''abc'' = 0.5"
    by (simp add: get_normalization_confidence_def tokenize_abc tokenize_a_b)
  ultimately show ?thesis
    using confidence_eq [of original normalized] confidence_bounds [of original normalized]
    by simp
qed

text \<open>
  Claim C5. For the tables of a lexicon manager as it is constructed,
  \<open>apply_character_replacements\<close> goes through the variants from the longest to the
  shortest (each entry of the index once): a variant equal to its canonical letter is
  skipped; a variant of one character is replaced by the canonical letter at each of its
  occurrences, whatever the case; any other variant replaces the word only when the whole
  word equals it up to case; afterwards each entry of \<open>common_replacements\<close> is applied as
  a substring replacement that ignores case. With the variant table \<open>{e: [3]}\<close> and no
  other rule, \<open>h3llo\<close> becomes \<open>hello\<close>.
\<close>

theorem apply_character_replacements_spec_eq:
  "apply_character_replacements (new_lexicon_manager j2n cr lv ws) word
     = apply_character_replacements_spec (new_lexicon_manager j2n cr lv ws) word
   \<and> sorted_wrt (\<lambda>a b. length (fst b) \<le> length (fst a)) (sorted_variants v2l)
   \<and> set (sorted_variants v2l) = set v2l
   \<and> length (sorted_variants v2l) = length v2l
   \<and> apply_character_replacements (new_lexicon_manager [] [] [(''e'', [''3''])] {}) ''h3llo''
       = ''hello''"
  using acr_eq_spec [of j2n cr lv ws word] sorted_variants_order [of v2l]
    sorted_variants_set [of v2l] acr_example
  by simp

text \<open>
  Claim C1. \<open>normalize_word\<close> tries the resolution steps in this order and returns the
  result of the first that succeeds: (1) the word is in the canonical word set (its lower
  case is looked up): the word itself; (2) the word has a direct lexicon mapping: the
  mapped form; (3) the word is eligible for character replacement and the rewritten word
  has a lexicon mapping: that mapping; (4) the best fuzzy match among all slang keys scores
  strictly above 0.6 and that key has a lexicon mapping: the mapping; (5) the lemma differs
  from the word: a direct lookup of the lemma, then the same fuzzy rule on the lemma; (6)
  the word itself. (A lexicon mapping is a lookup of the lower-cased word that gives a
  non-empty value.)
\<close>

theorem normalize_word_first_success:
  "first_success (resolution_steps nz word) = Some (normalize_word nz word)"
  by (rule normalize_word_steps)

text \<open>
  Claim C2, as stated: for every word the result follows the precedence of the two
  lookups. It fails for a word without any meaningful punctuation character that has a
  lexicon mapping: with \<open>juz\<close> mapped to \<open>just\<close>, the function returns \<open>juz\<close> with flag
  false, where the precedence (both the original and the unchanged modified word map)
  gives \<open>just\<close> with flag true.
\<close>

theorem evaluate_punctuation_counterexample:
  "evaluate_punctuation_value nz_juz ''juz'' = (''juz'', False)
   \<and> evaluate_punctuation_spec nz_juz ''juz'' = (''just'', True)
   \<and> evaluate_punctuation_value nz_juz ''juz'' \<noteq> evaluate_punctuation_spec nz_juz ''juz''"
  by (simp add: juz_code juz_spec)

text \<open>
  Claim C2, amended. A word that holds none of the meaningful punctuation characters is
  returned unchanged with flag false, without any lookup. For every other word the
  function strips the contraction markers (\<open>'s\<close>, \<open>'t\<close>, \<open>'re\<close>, \<open>'ve\<close>, \<open>'ll\<close>, \<open>'d\<close>,
  \<open>'m\<close>, the bare apostrophe, the backtick) in this order to build the modified word,
  looks both words up and returns: the mapping of the original with flag false when only
  the original maps; the mapping of the modified word with flag true when the modified
  word maps (whether or not the original does); the original word with flag false when
  neither maps.
\<close>

theorem evaluate_punctuation_value_spec:
  "evaluate_punctuation_value nz word =
     (if list_ex (\<lambda>p. p \<in> set word) meaningful_punctuation
      then evaluate_punctuation_spec nz word else (word, False))"
  by (rule evaluate_punctuation_guarded)

text \<open>
  Claim C3, as stated: the tokenized and the normalized field hold the same number of
  tokens. It fails when a lexicon value is more than one token: with \<open>u2\<close> mapped to
  \<open>you too\<close>, the text \<open>u2\<close> gives the tokenized field \<open>u2\<close> (one token) and the
  normalized field \<open>you too\<close> (two tokens).
\<close>

theorem normalize_text_counterexample:
  "dict_get (normalize_text nz_u2 ''u2'') ''tokenized'' = Some ''u2''
   \<and> dict_get (normalize_text nz_u2 ''u2'') ''normalized'' = Some ''you too''
   \<and> length (tokenize ''u2'') \<noteq> length (tokenize ''you too'')"
  using u2_fields u2_counts by simp

text \<open>
  Claim C3, amended. For every text and every rule set, \<open>normalize_text\<close> returns a dict
  with exactly the five fields \<open>original\<close>, \<open>punctuation_evaluated\<close>,
  \<open>character_replaced\<close>, \<open>tokenized\<close> and \<open>normalized\<close>. The tokenized field is the
  space-join of the token list and the normalized field the space-join of the list that
  holds \<open>normalize_word\<close> of each token, so the two joined lists have the same length;
  the tokenized field tokenizes to the token list again; and when every value of the
  lexicon is a single token, the two fields tokenize to the same number of tokens.
\<close>

theorem normalize_text_staged_fields:
  "dict_keys (normalize_text nz text) =
     [''original'', ''punctuation_evaluated'', ''character_replaced'', ''tokenized'',
      ''normalized'']
   \<and> dict_get (normalize_text nz text) ''original'' = Some text
   \<and> dict_get (normalize_text nz text) ''tokenized'' = Some (join '' '' (staged_tokens nz text))
   \<and> dict_get (normalize_text nz text) ''normalized''
       = Some (join '' '' (map (normalize_word nz) (staged_tokens nz text)))
   \<and> length (map (normalize_word nz) (staged_tokens nz text)) = length (staged_tokens nz text)
   \<and> tokenize (join '' '' (staged_tokens nz text)) = staged_tokens nz text
   \<and> (list_all (\<lambda>(k, v). length (tokenize v) = 1) (jejemon_to_normal (lexicon_manager nz)) \<longrightarrow>
        length (tokenize (join '' '' (map (normalize_word nz) (staged_tokens nz text))))
          = length (tokenize (join '' '' (staged_tokens nz text))))"
proof -
  have stable: "tokenize (join '' '' (staged_tokens nz text)) = staged_tokens nz text"
    unfolding staged_tokens_def by (rule tokenize_join_tokens)
  have count: "list_all (\<lambda>(k, v). length (tokenize v) = 1) (jejemon_to_normal (lexicon_manager nz)) \<longrightarrow>
        length (tokenize (join '' '' (map (normalize_word nz) (staged_tokens nz text))))
          = length (tokenize (join '' '' (staged_tokens nz text)))"
    using normalized_token_count [of nz] unfolding stable
    by (simp add: staged_tokens_def detokenize_def)
  show ?thesis
    using normalize_text_keys [of nz "text"] normalize_text_fields [of nz "text"] stable count
    by (simp add: detokenize_def)
qed

theorem normalize_text_staged_fields_witness:
  "list_all (\<lambda>(k, v). length (tokenize v) = 1) (jejemon_to_normal (lexicon_manager nz_juz))
   \<and> length (tokenize (join '' '' (map (normalize_word nz_juz) (staged_tokens nz_juz ''JuZ h3llo''))))
       = length (tokenize (join '' '' (staged_tokens nz_juz ''JuZ h3llo'')))"
  using normalize_text_staged_fields [of nz_juz "''JuZ h3llo''"] juz_values by simp

text \<open>
  Claim C4. \<open>should_apply_character_replacement\<close> is false exactly when the word is in
  the canonical word set, or has a direct lexicon mapping, or consists of digits only and
  has at least 3 characters, or matches one of the numeric patterns (year of 4 digits,
  date, time, decimal, comma-grouped number, percentage, hash number, money), or matches
  one of the alphanumeric code patterns. Every other word is eligible; in particular a
  word of 1 or 2 digits and a short mixed alphanumeric word (at most 3 letters and digits,
  at least one letter) are eligible when they are neither canonical nor mapped.
\<close>

theorem should_apply_character_replacement_spec:
  "should_apply_character_replacement nz word =
     (\<not> (is_in_words_txt (lexicon_manager nz) word
         \<or> truthy (get_normal_word (lexicon_manager nz) word)
         \<or> (isdigit word \<and> 3 \<le> length word)
         \<or> list_ex (\<lambda>p. re_match p word) number_patterns
         \<or> list_ex (\<lambda>p. re_match p word) alphanumeric_patterns))
   \<and> (isdigit d \<and> length d \<le> 2 \<and> \<not> is_in_words_txt (lexicon_manager nz) d
        \<and> \<not> truthy (get_normal_word (lexicon_manager nz) d)
        \<longrightarrow> should_apply_character_replacement nz d)
   \<and> (short_mixed m \<and> \<not> is_in_words_txt (lexicon_manager nz) m
        \<and> \<not> truthy (get_normal_word (lexicon_manager nz) m)
        \<longrightarrow> should_apply_character_replacement nz m)"
proof -
  have digits: "isdigit d \<and> length d \<le> 2 \<and> \<not> is_in_words_txt (lexicon_manager nz) d
        \<and> \<not> truthy (get_normal_word (lexicon_manager nz) d)
        \<longrightarrow> should_apply_character_replacement nz d"
    using short_digits_cases [of d] by (auto simp: should_apply_character_replacement_def)
  have mixed: "short_mixed m \<and> \<not> is_in_words_txt (lexicon_manager nz) m
        \<and> \<not> truthy (get_normal_word (lexicon_manager nz) m)
        \<longrightarrow> should_apply_character_replacement nz m"
    using short_mixed_number [of m] short_mixed_alnum [of m] short_mixed_not_isdigit [of m]
    by (auto simp: should_apply_character_replacement_def)
  show ?thesis using should_apply_iff [of nz word] digits mixed by blast
qed

theorem should_apply_character_replacement_spec_witness:
  "isdigit ''22'' \<and> length ''22'' \<le> 2 \<and> \<not> is_in_words_txt (lexicon_manager nz_juz) ''22''
   \<and> \<not> truthy (get_normal_word (lexicon_manager nz_juz) ''22'')
   \<and> should_apply_character_replacement nz_juz ''22''
   \<and> short_mixed ''e2'' \<and> \<not> is_in_words_txt (lexicon_manager nz_juz) ''e2''
   \<and> \<not> truthy (get_normal_word (lexicon_manager nz_juz) ''e2'')
   \<and> should_apply_character_replacement nz_juz ''e2''"
  using should_apply_character_replacement_spec [of nz_juz "''2021''" "''22''" "''e2''"] c4_hyps by blast

end
